theory Spec2Isabelle
  imports Main "HOL-Library.AList" "HOL-Library.Multiset" "HOL-Library.List_Lexorder"
    "HOL-Library.Char_ord"
begin

section \<open>Text utilities of the shell pipeline\<close>

text \<open>
  Shell strings are byte strings; a byte is a \<^typ>\<open>char\<close>.  The character classes of
  \<^verbatim>\<open>tr\<close> are those of the C locale, written out as the sets of bytes they contain.
\<close>

definition upper_chars :: string where
  "upper_chars = ''ABCDEFGHIJKLMNOPQRSTUVWXYZ''"

definition lower_chars :: string where
  "lower_chars = ''abcdefghijklmnopqrstuvwxyz''"

definition digit_chars :: string where
  "digit_chars = ''0123456789''"

text \<open>\<^verbatim>\<open>tr '[:upper:]' '[:lower:]'\<close>: the i-th upper-case letter becomes the i-th lower-case one.\<close>

definition lower_char :: "char \<Rightarrow> char" where
  "lower_char c = (case map_of (zip upper_chars lower_chars) c of Some d \<Rightarrow> d | None \<Rightarrow> c)"

definition tr_upper_lower :: "string \<Rightarrow> string" where
  "tr_upper_lower s = map lower_char s"

text \<open>\<^verbatim>\<open>tr ' ' '_'\<close>: every space byte becomes an underscore, one for one.\<close>

definition tr_space_underscore :: "string \<Rightarrow> string" where
  "tr_space_underscore s = map (\<lambda>c. if c = CHR '' '' then CHR ''_'' else c) s"

text \<open>\<^verbatim>\<open>tr -cd '[:alnum:]_'\<close>: every byte outside the set is deleted.\<close>

definition is_alnum :: "char \<Rightarrow> bool" where
  "is_alnum c = (c \<in> set (upper_chars @ lower_chars @ digit_chars))"

definition tr_keep_alnum_underscore :: "string \<Rightarrow> string" where
  "tr_keep_alnum_underscore s = filter (\<lambda>c. is_alnum c \<or> c = CHR ''_'') s"

text \<open>
  The builtin \<^verbatim>\<open>echo "$1"\<close> prints its argument and a newline, unless the argument is an
  option word (a dash followed by one or more of the letters n, e, E), which it consumes:
  then only the newline is printed, and not even that when the word holds an n.
\<close>

definition echo_option :: "string \<Rightarrow> bool" where
  "echo_option s = (case s of
       [] \<Rightarrow> False
     | c # rest \<Rightarrow> c = CHR ''-'' \<and> rest \<noteq> [] \<and> list_all (\<lambda>d. d \<in> set ''neE'') rest)"

definition echo :: "string \<Rightarrow> string" where
  "echo s = (if echo_option s then (if CHR ''n'' \<in> set s then [] else [CHR 0x0A])
             else s @ [CHR 0x0A])"

text \<open>
  The builtin \<^verbatim>\<open>echo -e "$x"\<close> also interprets backslash escapes.  The scripts build
  their argument with the escape \<^verbatim>\<open>\n\<close> only, so that is the case written out: in an
  argument that is not an option word and in which every backslash is followed by the
  letter n, each such pair becomes a newline byte, and a newline is printed at the end.
\<close>

fun only_newline_escapes :: "string \<Rightarrow> bool" where
  "only_newline_escapes (c # d # cs) =
     (if c = CHR 0x5C then d = CHR ''n'' \<and> only_newline_escapes cs
      else only_newline_escapes (d # cs))"
| "only_newline_escapes [c] = (c \<noteq> CHR 0x5C)"
| "only_newline_escapes [] = True"

fun unescape_newlines :: "string \<Rightarrow> string" where
  "unescape_newlines (c # d # cs) =
     (if c = CHR 0x5C \<and> d = CHR ''n'' then CHR 0x0A # unescape_newlines cs
      else c # unescape_newlines (d # cs))"
| "unescape_newlines cs = cs"

text \<open>
  \<^verbatim>\<open>to_snake_case() { echo "$1" | tr '[:upper:]' '[:lower:]' | tr ' ' '_' | tr -cd '[:alnum:]_' }\<close>
\<close>

definition to_snake_case :: "string \<Rightarrow> string" where
  "to_snake_case s = tr_keep_alnum_underscore (tr_space_underscore (tr_upper_lower (echo s)))"

subsection \<open>The normalization as the specification words it\<close>

text \<open>
  The specification's wording of the same step: lower-case, collapse whitespace to
  underscore (a run of whitespace becomes one underscore), then strip every character
  that is not alphanumeric or underscore.
\<close>

definition is_space :: "char \<Rightarrow> bool" where
  "is_space c = (c \<in> set [CHR '' '', CHR 0x09, CHR 0x0A, CHR 0x0B, CHR 0x0C, CHR 0x0D])"

fun collapse_ws :: "bool \<Rightarrow> string \<Rightarrow> string" where
  "collapse_ws in_run [] = []"
| "collapse_ws in_run (c # cs) =
     (if is_space c then (if in_run then collapse_ws True cs else CHR ''_'' # collapse_ws True cs)
      else c # collapse_ws False cs)"

definition collapse_whitespace :: "string \<Rightarrow> string" where
  "collapse_whitespace s = collapse_ws False s"

definition spec_normalize :: "string \<Rightarrow> string" where
  "spec_normalize s = tr_keep_alnum_underscore (collapse_whitespace (tr_upper_lower s))"

section \<open>The album directory tree\<close>

text \<open>
  The pipeline works on the directory \<^verbatim>\<open>public/albums\<close>.  A directory is the list of its
  entries in the order in which the file system enumerates them; an entry is a regular file
  with its bytes or a directory.  Permissions, symbolic links and input/output errors are
  outside the model: a command fails only for the reasons written out below.
\<close>

datatype node = File string | Dir "(string \<times> node) list"

type_synonym dir = "(string \<times> node) list"

text \<open>The tests \<^verbatim>\<open>[ -f path ]\<close> and \<^verbatim>\<open>[ -d path ]\<close> on the result of a lookup.\<close>

fun is_file :: "node option \<Rightarrow> bool" where
  "is_file (Some (File c)) = True"
| "is_file other = False"

fun is_dir :: "node option \<Rightarrow> bool" where
  "is_dir (Some (Dir d)) = True"
| "is_dir other = False"

text \<open>
  What the scripts use and the repository does not hold: the thumbnail encoder (the bytes
  of the scaled image, or a failure) and what the builtin \<^verbatim>\<open>echo -e\<close> prints for an
  argument with other escapes than \<^verbatim>\<open>\n\<close> or for an option word.
\<close>

record tools =
  ffmpeg :: "string \<Rightarrow> string option"
  echo_e_other :: "string \<Rightarrow> string"

definition echo_e :: "tools \<Rightarrow> string \<Rightarrow> string" where
  "echo_e t s =
     (if \<not> echo_option s \<and> only_newline_escapes s then unescape_newlines s @ [CHR 0x0A]
      else echo_e_other t s)"

text \<open>Command substitution \<^verbatim>\<open>$(...)\<close> drops the trailing newlines of the output.\<close>

definition command_subst :: "string \<Rightarrow> string" where
  "command_subst s = rev (dropWhile (\<lambda>c. c = CHR 0x0A) (rev s))"

text \<open>
  \<^verbatim>\<open>basename path\<close> prints the last component of the path, trailing slashes apart, and a
  newline; of a path of slashes only it prints one slash.
\<close>

definition basename :: "string \<Rightarrow> string" where
  "basename path =
     (let trimmed = rev (dropWhile (\<lambda>c. c = CHR ''/'') (rev path))
      in (if trimmed = [] then (if path = [] then [] else ''/'')
          else rev (takeWhile (\<lambda>c. c \<noteq> CHR ''/'') (rev trimmed))) @ [CHR 0x0A])"

text \<open>
  \<^verbatim>\<open>${x##*c}\<close> removes the longest prefix that ends in the byte c, and
  \<^verbatim>\<open>${x%%c*}\<close> the longest suffix that starts with it.
\<close>

definition after_last :: "char \<Rightarrow> string \<Rightarrow> string" where
  "after_last c s = rev (takeWhile (\<lambda>x. x \<noteq> c) (rev s))"

definition before_first :: "char \<Rightarrow> string \<Rightarrow> string" where
  "before_first c s = takeWhile (\<lambda>x. x \<noteq> c) s"

text \<open>The decimal numeral that \<^verbatim>\<open>${index}\<close> expands to.\<close>

function dec :: "nat \<Rightarrow> string" where
  "dec n = (if n < 10 then [digit_chars ! n] else dec (n div 10) @ [digit_chars ! (n mod 10)])"
  by pat_completeness auto
termination
  by (relation "measure id") auto

declare dec.simps [simp del]

subsection \<open>Enumerating the source photos\<close>

text \<open>
  \<^verbatim>\<open>find "$album_path" -maxdepth 1 -type f \( -iname "*.jpg" -o -iname "*.jpeg" -o -iname "*.png" \) -print0\<close>:
  the regular files directly inside the album whose name ends, in any letter case, in one
  of the three suffixes; each is printed as the album path followed by the name.
\<close>

definition iname_suffix :: "string \<Rightarrow> string \<Rightarrow> bool" where
  "iname_suffix suffix name =
     (length suffix \<le> length name
      \<and> map lower_char (drop (length name - length suffix) name) = suffix)"

definition is_photo_name :: "string \<Rightarrow> bool" where
  "is_photo_name name =
     (iname_suffix ''.jpg'' name \<or> iname_suffix ''.jpeg'' name \<or> iname_suffix ''.png'' name)"

fun photo_entries :: "dir \<Rightarrow> (string \<times> string) list" where
  "photo_entries [] = []"
| "photo_entries ((name, File c) # es) =
     (if is_photo_name name then (name, c) # photo_entries es else photo_entries es)"
| "photo_entries ((name, Dir d) # es) = photo_entries es"

definition find_photos :: "string \<Rightarrow> dir \<Rightarrow> string list" where
  "find_photos album_path E = map (\<lambda>(name, c). album_path @ name) (photo_entries E)"

text \<open>A path below the album path names the entry that follows the album path.\<close>

definition entry_name :: "string \<Rightarrow> string \<Rightarrow> string" where
  "entry_name album_path path = drop (length album_path) path"

subsection \<open>The commands of the per-photo loop\<close>

text \<open>\<^verbatim>\<open>mkdir -p\<close>: creates the directory, keeps an existing one, fails on a regular file.\<close>

definition mkdir_p :: "string \<Rightarrow> dir \<Rightarrow> dir option" where
  "mkdir_p name E =
     (case map_of E name of
        None \<Rightarrow> Some (AList.update name (Dir []) E)
      | Some (Dir d) \<Rightarrow> Some E
      | Some (File c) \<Rightarrow> None)"

text \<open>
  \<^verbatim>\<open>cp "$photo" "${album_path}full/${original_filename}"\<close>: the source must be a regular
  file and the subdirectory a directory.  A missing target is created, a regular file is
  overwritten, and into a directory of that name the file is copied under its own name.
\<close>

definition cp_file :: "string \<Rightarrow> string \<Rightarrow> string \<Rightarrow> dir \<Rightarrow> dir option" where
  "cp_file src sub target E =
     (case (map_of E src, map_of E sub) of
        (Some (File c), Some (Dir F)) \<Rightarrow>
          (case map_of F target of
             Some (Dir G) \<Rightarrow>
               (if is_dir (map_of G src) then None
                else Some (AList.update sub
                       (Dir (AList.update target (Dir (AList.update src (File c) G)) F)) E))
           | other \<Rightarrow> Some (AList.update sub (Dir (AList.update target (File c) F)) E))
      | other \<Rightarrow> None)"

text \<open>
  \<^verbatim>\<open>ffmpeg -i "$photo" -vf "scale=iw*0.5:ih*0.5" -quality 85 "${album_path}low/${webp_filename}" -y\<close>:
  the encoder reads the source and writes the thumbnail, over an existing file too; it
  fails when the encoder does, when the subdirectory is missing or when the target is a
  directory, and a failed run is taken to leave no output.
\<close>

definition ffmpeg_thumbnail :: "tools \<Rightarrow> string \<Rightarrow> string \<Rightarrow> string \<Rightarrow> dir \<Rightarrow> dir option" where
  "ffmpeg_thumbnail t src sub target E =
     (case (map_of E src, map_of E sub) of
        (Some (File c), Some (Dir L)) \<Rightarrow>
          (case ffmpeg t c of
             None \<Rightarrow> None
           | Some thumb \<Rightarrow>
               (if is_dir (map_of L target) then None
                else Some (AList.update sub (Dir (AList.update target (File thumb) L)) E)))
      | other \<Rightarrow> None)"

text \<open>\<^verbatim>\<open>rm "$photo"\<close>: removes a regular file, fails on anything else.\<close>

definition rm_file :: "string \<Rightarrow> dir \<Rightarrow> dir option" where
  "rm_file name E = (if is_file (map_of E name) then Some (AList.delete name E) else None)"

text \<open>
  The loop over \<^verbatim>\<open>photo_files\<close> (lines 128 to 155 of upload.sh).  The script runs under
  \<^verbatim>\<open>set -e\<close>: the first failing command ends it, with the tree as it is at that moment;
  the flag in the result says whether the loop ran to its end.
\<close>

fun process_photos ::
  "tools \<Rightarrow> string \<Rightarrow> string \<Rightarrow> string list \<Rightarrow> nat \<Rightarrow> string list \<Rightarrow> dir
     \<Rightarrow> bool \<times> string list \<times> dir" where
  "process_photos t album_path snake_album_name [] index photo_data E = (True, photo_data, E)"
| "process_photos t album_path snake_album_name (photo # rest) index photo_data E =
     (let extension = after_last (CHR ''.'') photo;
          extension_lower = command_subst (tr_upper_lower (echo extension));
          base_name = snake_album_name @ ''_'' @ dec index;
          original_filename = base_name @ ''.'' @ extension_lower;
          webp_filename = base_name @ ''.webp'';
          photo_data' = photo_data @ [webp_filename @ '':'' @ extension_lower];
          src = entry_name album_path photo
      in case cp_file src ''full'' original_filename E of
           None \<Rightarrow> (False, photo_data', E)
         | Some E1 \<Rightarrow>
             (case ffmpeg_thumbnail t src ''low'' webp_filename E1 of
                None \<Rightarrow> (False, photo_data', E1)
              | Some E2 \<Rightarrow>
                  (case rm_file src E2 of
                     None \<Rightarrow> (False, photo_data', E2)
                   | Some E3 \<Rightarrow>
                       process_photos t album_path snake_album_name rest (index + 1)
                         photo_data' E3)))"

subsection \<open>The metadata file\<close>

text \<open>
  The loop that builds \<^verbatim>\<open>photos_json\<close> (lines 165 to 176): inside the double quotes
  \<^verbatim>\<open>\n\<close> stays a backslash and an n, and \<^verbatim>\<open>\"\<close> is a quote.
\<close>

definition photo_json_entry :: "string \<Rightarrow> string" where
  "photo_json_entry entry =
     [CHR 0x5C] @ ''n    {'' @ [CHR 0x22] @ ''webp'' @ [CHR 0x22] @ '': '' @ [CHR 0x22]
       @ before_first (CHR '':'') entry @ [CHR 0x22] @ '', '' @ [CHR 0x22] @ ''ext''
       @ [CHR 0x22] @ '': '' @ [CHR 0x22] @ after_last (CHR '':'') entry @ [CHR 0x22] @ ''}''"

fun photos_json_loop :: "nat \<Rightarrow> string list \<Rightarrow> string \<Rightarrow> string" where
  "photos_json_loop i [] photos_json = photos_json"
| "photos_json_loop i (entry # rest) photos_json =
     photos_json_loop (i + 1) rest
       (if i = 0 then photos_json @ photo_json_entry entry
        else photos_json @ '','' @ photo_json_entry entry)"

definition build_photos_json :: "string list \<Rightarrow> string" where
  "build_photos_json photo_data = photos_json_loop 0 photo_data ''['' @ [CHR 0x5C] @ ''n  ]''"

text \<open>The here-document written to \<^verbatim>\<open>data.json\<close> (lines 179 to 187).\<close>

definition data_json_text ::
  "tools \<Rightarrow> string \<Rightarrow> string \<Rightarrow> string \<Rightarrow> string \<Rightarrow> string list \<Rightarrow> string" where
  "data_json_text t album_name photographer_name timestamp cover_photo_webp photo_data =
     ''{'' @ [CHR 0x0A]
     @ ''  '' @ [CHR 0x22] @ ''name'' @ [CHR 0x22] @ '': '' @ [CHR 0x22] @ album_name
         @ [CHR 0x22] @ '','' @ [CHR 0x0A]
     @ ''  '' @ [CHR 0x22] @ ''photographer'' @ [CHR 0x22] @ '': '' @ [CHR 0x22]
         @ photographer_name @ [CHR 0x22] @ '','' @ [CHR 0x0A]
     @ ''  '' @ [CHR 0x22] @ ''date'' @ [CHR 0x22] @ '': '' @ [CHR 0x22] @ timestamp
         @ [CHR 0x22] @ '','' @ [CHR 0x0A]
     @ ''  '' @ [CHR 0x22] @ ''coverPhoto'' @ [CHR 0x22] @ '': '' @ [CHR 0x22]
         @ cover_photo_webp @ [CHR 0x22] @ '','' @ [CHR 0x0A]
     @ ''  '' @ [CHR 0x22] @ ''photos'' @ [CHR 0x22] @ '': ''
         @ command_subst (echo_e t (build_photos_json photo_data)) @ [CHR 0x0A]
     @ ''}'' @ [CHR 0x0A]"

text \<open>
  A redirection \<^verbatim>\<open>> file\<close> opens the file for writing, creating it or cutting it to
  length zero, before the command runs; the command then writes its output.  The two
  states of the directory that follow one another, and the failure on a directory.
\<close>

definition open_truncate :: "string \<Rightarrow> dir \<Rightarrow> dir option" where
  "open_truncate name E =
     (if is_dir (map_of E name) then None else Some (AList.update name (File []) E))"

definition write_output :: "string \<Rightarrow> string \<Rightarrow> dir \<Rightarrow> dir" where
  "write_output name text E = AList.update name (File text) E"

definition redirect_trace :: "string \<Rightarrow> string \<Rightarrow> dir \<Rightarrow> dir list" where
  "redirect_trace name text E =
     (case open_truncate name E of
        None \<Rightarrow> []
      | Some E1 \<Rightarrow> [E1, write_output name text E1])"

definition redirect_to :: "string \<Rightarrow> string \<Rightarrow> dir \<Rightarrow> dir option" where
  "redirect_to name text E =
     (case redirect_trace name text E of [] \<Rightarrow> None | states \<Rightarrow> Some (last states))"

subsection \<open>Publishing one album\<close>

datatype outcome = Completed | EmptyAlbum | CommandFailed

text \<open>
  Lines 105 to 189 of \<^verbatim>\<open>process_album\<close>, on the entries of the album directory.  The
  answers to the two prompts, the output of \<^verbatim>\<open>date\<close> and the value of \<^verbatim>\<open>RANDOM\<close>
  are arguments.
\<close>

definition transform_album ::
  "tools \<Rightarrow> string \<Rightarrow> string \<Rightarrow> string \<Rightarrow> nat \<Rightarrow> string \<Rightarrow> dir \<Rightarrow> outcome \<times> dir" where
  "transform_album t album_name photographer_name timestamp random album_path E =
     (let snake_album_name = command_subst (to_snake_case album_name);
          photo_files = find_photos album_path E;
          photo_count = length photo_files
      in if photo_count = 0 then (EmptyAlbum, E)
         else case mkdir_p ''low'' E of
           None \<Rightarrow> (CommandFailed, E)
         | Some E1 \<Rightarrow>
         (case mkdir_p ''full'' E1 of
           None \<Rightarrow> (CommandFailed, E1)
         | Some E2 \<Rightarrow>
         (case process_photos t album_path snake_album_name photo_files 1 [] E2 of
           (False, photo_data, E3) \<Rightarrow> (CommandFailed, E3)
         | (True, photo_data, E3) \<Rightarrow>
             (let random_index = random mod length photo_data;
                  cover_photo_data = photo_data ! random_index;
                  cover_photo_webp = before_first (CHR '':'') cover_photo_data
              in case redirect_to ''data.json''
                        (data_json_text t album_name photographer_name timestamp
                           cover_photo_webp photo_data) E3 of
                   None \<Rightarrow> (CommandFailed, E3)
                 | Some E4 \<Rightarrow> (Completed, E4)))))"

text \<open>
  \<^verbatim>\<open>mv "$album_path" "$new_album_path"\<close> inside \<^verbatim>\<open>public/albums\<close>: a free target name
  renames the album; an existing directory of the target name receives the album as a
  subdirectory under its old name (over an empty directory of that name only); a regular
  file in the way makes the command fail, and so does the empty target name, which
  denotes \<^verbatim>\<open>public/albums\<close> itself.
\<close>

definition mv_album :: "string \<Rightarrow> string \<Rightarrow> dir \<Rightarrow> dir option" where
  "mv_album old_name new_name A =
     (case map_of A old_name of
        None \<Rightarrow> None
      | Some album \<Rightarrow>
          (if new_name = [] then None
           else case map_of A new_name of
             None \<Rightarrow> Some (AList.update new_name album (AList.delete old_name A))
           | Some (File c) \<Rightarrow> None
           | Some (Dir D) \<Rightarrow>
               (case map_of D old_name of
                  None \<Rightarrow> Some (AList.update new_name
                                  (Dir (AList.update old_name album D)) (AList.delete old_name A))
                | Some (File c) \<Rightarrow> None
                | Some (Dir G) \<Rightarrow>
                    (if G = [] \<and> is_dir (Some album)
                     then Some (AList.update new_name
                                  (Dir (AList.update old_name album D)) (AList.delete old_name A))
                     else None))))"

text \<open>
  \<^verbatim>\<open>process_album\<close> on the album directory named \<^verbatim>\<open>album_dir_name\<close> of
  \<^verbatim>\<open>public/albums\<close>; its argument in the script is the path
  \<^verbatim>\<open>public/albums/album_dir_name/\<close> that the glob of \<^verbatim>\<open>find_uninitialized_albums\<close> printed.
  On a path that is no directory \<^verbatim>\<open>find\<close> prints nothing, and the album is skipped as
  an empty one.
\<close>

definition ALBUMS_DIR :: string where
  "ALBUMS_DIR = ''public/albums''"

definition process_album ::
  "tools \<Rightarrow> string \<Rightarrow> string \<Rightarrow> string \<Rightarrow> nat \<Rightarrow> string \<Rightarrow> dir \<Rightarrow> outcome \<times> dir" where
  "process_album t album_name photographer_name timestamp random album_dir_name A =
     (let album_path = ALBUMS_DIR @ ''/'' @ album_dir_name @ ''/'';
          snake_album_name = command_subst (to_snake_case album_name)
      in case map_of A album_dir_name of
           Some (Dir E) \<Rightarrow>
             (case transform_album t album_name photographer_name timestamp random album_path E of
                (Completed, E') \<Rightarrow>
                  (let A1 = AList.update album_dir_name (Dir E') A;
                       new_album_path = ALBUMS_DIR @ ''/'' @ snake_album_name
                   in if album_path \<noteq> new_album_path @ ''/''
                      then (case mv_album album_dir_name snake_album_name A1 of
                              None \<Rightarrow> (CommandFailed, A1)
                            | Some A2 \<Rightarrow> (Completed, A2))
                      else (Completed, A1))
              | (other, E') \<Rightarrow> (other, AList.update album_dir_name (Dir E') A))
         | other \<Rightarrow> (EmptyAlbum, A))"

section \<open>Resetting an album\<close>

text \<open>
  Pathname expansion: \<^verbatim>\<open>*\<close> matches the names that do not begin with a dot, and the
  matches come sorted (in the C locale, by bytes).  With a trailing slash only directories
  match.
\<close>

fun hidden :: "string \<Rightarrow> bool" where
  "hidden [] = False"
| "hidden (c # cs) = (c = CHR ''.'')"

definition glob_star :: "dir \<Rightarrow> string list" where
  "glob_star d = sort (filter (\<lambda>name. \<not> hidden name) (map fst d))"

definition glob_star_slash :: "dir \<Rightarrow> string list" where
  "glob_star_slash d =
     sort (map fst (filter (\<lambda>(name, x). \<not> hidden name \<and> is_dir (Some x)) d))"

text \<open>
  \<^verbatim>\<open>find "${album_path}/full" -type f | wc -l\<close>: \<^verbatim>\<open>find\<close> prints the path of every
  regular file at any depth, one per line, and \<^verbatim>\<open>wc -l\<close> counts the newline bytes.
\<close>

fun find_type_f :: "string \<Rightarrow> node \<Rightarrow> string list" where
  "find_type_f path (File c) = [path]"
| "find_type_f path (Dir es) =
     concat (map (\<lambda>(name, x). find_type_f (path @ ''/'' @ name) x) es)"

definition wc_l :: "string list \<Rightarrow> nat" where
  "wc_l paths = length (filter (\<lambda>c. c = CHR 0x0A) (concat (map (\<lambda>p. p @ [CHR 0x0A]) paths)))"

text \<open>
  \<^verbatim>\<open>mv "${album_path}/full"/* "${album_path}/"\<close>, one source at a time.  A source moves
  to a free name, a regular file over a regular file, a directory over an empty directory;
  any other pairing fails.  \<^verbatim>\<open>mv\<close> goes on to the next source after a failure and
  reports it at the end.
\<close>

fun can_replace :: "node \<Rightarrow> node option \<Rightarrow> bool" where
  "can_replace x None = True"
| "can_replace (File c) (Some (File c')) = True"
| "can_replace (Dir d) (Some (Dir d')) = (d' = [])"
| "can_replace x (Some y) = False"

definition mv_into_root :: "string \<Rightarrow> dir \<Rightarrow> bool \<times> dir" where
  "mv_into_root name E =
     (case map_of E ''full'' of
        Some (Dir F) \<Rightarrow>
          (case map_of F name of
             None \<Rightarrow> (False, E)
           | Some x \<Rightarrow>
               (if can_replace x (map_of E name)
                then (True, AList.update name x
                              (AList.update ''full'' (Dir (AList.delete name F)) E))
                else (False, E)))
      | other \<Rightarrow> (False, E))"

fun mv_all :: "string list \<Rightarrow> dir \<Rightarrow> bool \<times> dir" where
  "mv_all [] E = (True, E)"
| "mv_all (name # names) E =
     (case mv_into_root name E of
        (ok, E1) \<Rightarrow> (case mv_all names E1 of (ok', E2) \<Rightarrow> (ok \<and> ok', E2)))"

text \<open>When nothing matches, the pattern stays as it is and \<^verbatim>\<open>mv\<close> finds no such file.\<close>

definition mv_full_to_root :: "dir \<Rightarrow> bool \<times> dir" where
  "mv_full_to_root E =
     (case map_of E ''full'' of
        Some (Dir F) \<Rightarrow> (if glob_star F = [] then (False, E) else mv_all (glob_star F) E)
      | other \<Rightarrow> (False, E))"

datatype reset_outcome =
    AlbumNotFound
  | AlreadyReset
  | NoFullDirectory
  | ResetCancelled nat
  | MoveFailed nat
  | ResetDone nat

text \<open>
  \<^verbatim>\<open>reset_album\<close> of reset-album.sh, on \<^verbatim>\<open>public/albums\<close>.  The album name is
  the name of an entry of that directory, and the answer to the confirmation prompt is an
  argument; the number in the outcome is \<^verbatim>\<open>photo_count\<close>, which the script prints.
\<close>

definition reset_files :: "dir \<Rightarrow> bool \<times> dir" where
  "reset_files E =
     (case mv_full_to_root E of
        (False, E1) \<Rightarrow> (False, E1)
      | (True, E1) \<Rightarrow>
          (let E2 = (if is_dir (map_of E1 ''low'') then AList.delete ''low'' E1 else E1);
               E3 = AList.delete ''full'' E2;
               E4 = (if is_file (map_of E3 ''data.json'') then AList.delete ''data.json'' E3
                     else E3)
           in (True, E4)))"

definition reset_album :: "string \<Rightarrow> string \<Rightarrow> dir \<Rightarrow> reset_outcome \<times> dir" where
  "reset_album confirm album_name A =
     (let album_path = ALBUMS_DIR @ ''/'' @ album_name
      in case map_of A album_name of
           Some (Dir E) \<Rightarrow>
             (if \<not> is_file (map_of E ''data.json'') then (AlreadyReset, A)
              else case map_of E ''full'' of
                Some (Dir F) \<Rightarrow>
                  (let photo_count = wc_l (find_type_f (album_path @ ''/full'') (Dir F))
                   in if confirm \<noteq> ''y'' \<and> confirm \<noteq> ''Y'' then (ResetCancelled photo_count, A)
                      else case reset_files E of
                        (False, E') \<Rightarrow>
                          (MoveFailed photo_count, AList.update album_name (Dir E') A)
                      | (True, E') \<Rightarrow>
                          (ResetDone photo_count, AList.update album_name (Dir E') A))
              | other \<Rightarrow> (NoFullDirectory, A))
         | other \<Rightarrow> (AlbumNotFound, A))"

section \<open>The global manifest\<close>

text \<open>
  The site directory \<^verbatim>\<open>public\<close>: what is at \<^verbatim>\<open>public/albums\<close> and what is at
  \<^verbatim>\<open>public/albums.json\<close>.
\<close>

record site =
  albums_dir :: "node option"
  albums_json :: "node option"

text \<open>
  The loops of \<^verbatim>\<open>generate_albums_manifest\<close> (lines 218 to 234 of upload.sh).  The first
  runs over the matches of \<^verbatim>\<open>"$ALBUMS_DIR"/*/\<close>, keeps those that pass
  \<^verbatim>\<open>[ -d "$album_dir" ] && [ -f "${album_dir}data.json" ]\<close>, and appends
  \<^verbatim>\<open>"$(basename "$album_dir")"\<close> for each.
\<close>

definition album_dirs :: "dir \<Rightarrow> string list" where
  "album_dirs A =
     filter (\<lambda>name. case map_of A name of
                       Some (Dir E) \<Rightarrow> is_file (map_of E ''data.json'')
                     | other \<Rightarrow> False)
       (glob_star_slash A)"

definition published_albums :: "dir \<Rightarrow> string list" where
  "published_albums A =
     map (\<lambda>name. command_subst (basename (ALBUMS_DIR @ ''/'' @ name @ ''/'')))
       (album_dirs A)"

text \<open>
  The second builds \<^verbatim>\<open>json_content\<close>; \<^verbatim>\<open>\n    \"${albums[$i]}\"\<close> inside double
  quotes is a backslash, an n, four spaces and the name between quotes.
\<close>

definition album_json_entry :: "string \<Rightarrow> string" where
  "album_json_entry album = [CHR 0x5C] @ ''n    '' @ [CHR 0x22] @ album @ [CHR 0x22]"

fun json_content_loop :: "nat \<Rightarrow> string list \<Rightarrow> string \<Rightarrow> string" where
  "json_content_loop i [] json_content = json_content"
| "json_content_loop i (album # rest) json_content =
     json_content_loop (i + 1) rest
       (if i = 0 then json_content @ album_json_entry album
        else json_content @ '','' @ album_json_entry album)"

definition build_json_content :: "string list \<Rightarrow> string" where
  "build_json_content albums =
     json_content_loop 0 albums
       (''{'' @ [CHR 0x5C] @ ''n  '' @ [CHR 0x22] @ ''albums'' @ [CHR 0x22] @ '': ['')
     @ [CHR 0x5C] @ ''n  ]'' @ [CHR 0x5C] @ ''n}''"

definition generate_albums_manifest :: "tools \<Rightarrow> site \<Rightarrow> bool \<times> site" where
  "generate_albums_manifest t s =
     (case albums_dir s of
        Some (Dir A) \<Rightarrow>
          (let albums = published_albums A;
               json_content = build_json_content albums
           in if is_dir (albums_json s) then (False, s)
              else (True, s\<lparr>albums_json := Some (File (echo_e t json_content))\<rparr>))
      | other \<Rightarrow> (True, s))"

section \<open>The gallery client\<close>

text \<open>
  The value that \<^verbatim>\<open>response.json()\<close> yields.  An object is the list of its properties;
  reading a property that is not there gives \<^verbatim>\<open>undefined\<close>, here \<^term>\<open>None\<close>.  A
  JavaScript string is modelled as a \<^typ>\<open>string\<close>, and a number as an integer, since the
  code never calculates with one.
\<close>

datatype json =
    JNull
  | JBool bool
  | JNum int
  | JStr string
  | JArr "json list"
  | JObj "(string \<times> json) list"

text \<open>
  What the pages use of the browser and the repository does not hold: the text of a
  number, the time value of \<^verbatim>\<open>new Date(v)\<close> (\<^term>\<open>None\<close> for an invalid date, whose
  time value is NaN), and the message of a TypeError.
\<close>

record browser =
  number_text :: "int \<Rightarrow> string"
  date_value :: "json option \<Rightarrow> int option"
  type_error_message :: string

datatype js_error = HttpError nat | SyntaxError string | NetworkError string | TypeError string | Error string

text \<open>The \<^verbatim>\<open>message\<close> of an error; a status is a small number, printed in decimal.\<close>

fun message :: "js_error \<Rightarrow> string" where
  "message (HttpError status) = ''HTTP error! status: '' @ dec status"
| "message (SyntaxError m) = m"
| "message (NetworkError m) = m"
| "message (TypeError m) = m"
| "message (Error m) = m"

text \<open>
  A fetch either rejects, or resolves to a response with a status and a body; the body
  is the value it parses to, or the message of the SyntaxError that parsing it raises.
\<close>

datatype response = Rejected string | Response nat "string + json"

definition ok :: "nat \<Rightarrow> bool" where
  "ok status = (200 \<le> status \<and> status \<le> 299)"

text \<open>Truthiness, and the conversion to a string inside a template literal.\<close>

fun truthy :: "json option \<Rightarrow> bool" where
  "truthy None = False"
| "truthy (Some JNull) = False"
| "truthy (Some (JBool b)) = b"
| "truthy (Some (JNum n)) = (n \<noteq> 0)"
| "truthy (Some (JStr s)) = (s \<noteq> [])"
| "truthy (Some (JArr xs)) = True"
| "truthy (Some (JObj fs)) = True"

fun join_comma :: "string list \<Rightarrow> string" where
  "join_comma [] = []"
| "join_comma [s] = s"
| "join_comma (s # t # rest) = s @ '','' @ join_comma (t # rest)"

fun to_text :: "browser \<Rightarrow> json \<Rightarrow> string" where
  "to_text b JNull = ''null''"
| "to_text b (JBool v) = (if v then ''true'' else ''false'')"
| "to_text b (JNum n) = number_text b n"
| "to_text b (JStr s) = s"
| "to_text b (JArr xs) = join_comma (map (\<lambda>x. if x = JNull then [] else to_text b x) xs)"
| "to_text b (JObj fs) = ''[object Object]''"

definition template :: "browser \<Rightarrow> json option \<Rightarrow> string" where
  "template b v = (case v of None \<Rightarrow> ''undefined'' | Some x \<Rightarrow> to_text b x)"

text \<open>
  Reading a property: of \<^verbatim>\<open>null\<close> it throws; of an object it is the property; of any
  other value it is \<^verbatim>\<open>undefined\<close> for the property names that the pages read, except
  the \<^verbatim>\<open>length\<close> of an array or a string.
\<close>

definition get_property :: "browser \<Rightarrow> json \<Rightarrow> string \<Rightarrow> js_error + json option" where
  "get_property b v name =
     (case v of
        JNull \<Rightarrow> Inl (TypeError (type_error_message b))
      | JObj fs \<Rightarrow> Inr (map_of fs name)
      | JArr xs \<Rightarrow> Inr (if name = ''length'' then Some (JNum (int (length xs))) else None)
      | JStr s \<Rightarrow> Inr (if name = ''length'' then Some (JNum (int (length s))) else None)
      | other \<Rightarrow> Inr None)"

text \<open>\<^verbatim>\<open>String.prototype.replace\<close> with a string pattern: the first occurrence only.\<close>

fun replace_first :: "string \<Rightarrow> string \<Rightarrow> string \<Rightarrow> string" where
  "replace_first pattern replacement [] = (if pattern = [] then replacement else [])"
| "replace_first pattern replacement (c # cs) =
     (if take (length pattern) (c # cs) = pattern
      then replacement @ drop (length pattern) (c # cs)
      else c # replace_first pattern replacement cs)"

subsection \<open>The album page\<close>

record photo =
  thumbnail :: string
  lightbox :: string
  original :: string

text \<open>The function mapped over \<^verbatim>\<open>currentAlbum.photos\<close> in \<^verbatim>\<open>loadPhotos\<close> of album-view.js.\<close>

definition decode_photo :: "browser \<Rightarrow> string \<Rightarrow> json \<Rightarrow> js_error + photo" where
  "decode_photo b albumFolder p =
     (let old_format = Inr \<lparr>thumbnail = ''albums/'' @ albumFolder @ ''/low/'' @ template b (Some p),
                            lightbox = ''albums/'' @ albumFolder @ ''/low/'' @ template b (Some p),
                            original = ''albums/'' @ albumFolder @ ''/full/'' @ template b (Some p)\<rparr>
      in case p of
        JNull \<Rightarrow> Inl (TypeError (type_error_message b))
      | JObj fs \<Rightarrow>
          (if truthy (map_of fs ''webp'') then
             (case map_of fs ''webp'' of
                Some (JStr webp) \<Rightarrow>
                  (let baseName = replace_first ''.webp'' [] webp
                   in Inr \<lparr>thumbnail = ''albums/'' @ albumFolder @ ''/low/'' @ webp,
                           lightbox = ''albums/'' @ albumFolder @ ''/low/'' @ webp,
                           original = ''albums/'' @ albumFolder @ ''/full/'' @ baseName @ ''.''
                                        @ template b (map_of fs ''ext'')\<rparr>)
              | other \<Rightarrow> Inl (TypeError (type_error_message b)))
           else old_format)
      | other \<Rightarrow> old_format)"

fun decode_all :: "browser \<Rightarrow> string \<Rightarrow> json list \<Rightarrow> js_error + photo list" where
  "decode_all b albumFolder [] = Inr []"
| "decode_all b albumFolder (p # ps) =
     (case decode_photo b albumFolder p of
        Inl e \<Rightarrow> Inl e
      | Inr x \<Rightarrow> (case decode_all b albumFolder ps of Inl e \<Rightarrow> Inl e | Inr xs \<Rightarrow> Inr (x # xs)))"

text \<open>
  \<^verbatim>\<open>loadPhotos\<close>: whatever is thrown inside is caught and thrown again as an Error with
  the prefixed message.
\<close>

definition loadPhotos :: "browser \<Rightarrow> string \<Rightarrow> json \<Rightarrow> js_error + photo list" where
  "loadPhotos b albumFolder currentAlbum =
     (let wrap = (\<lambda>e. Inl (Error (''Could not load photos: '' @ message e)));
          no_photos = Error ''No photos found in album data''
      in case get_property b currentAlbum ''photos'' of
           Inl e \<Rightarrow> wrap e
         | Inr photos \<Rightarrow>
             (if \<not> truthy photos then wrap no_photos
              else case photos of
                Some (JArr ps) \<Rightarrow>
                  (if ps = [] then wrap no_photos
                   else case decode_all b albumFolder ps of Inl e \<Rightarrow> wrap e | Inr xs \<Rightarrow> Inr xs)
              | Some (JObj fs) \<Rightarrow>
                  (if map_of fs ''length'' = Some (JNum 0) then wrap no_photos
                   else wrap (TypeError (type_error_message b)))
              | other \<Rightarrow> wrap (TypeError (type_error_message b))))"

subsection \<open>The album list\<close>

text \<open>
  The callback mapped over \<^verbatim>\<open>manifest.albums\<close> in \<^verbatim>\<open>loadAlbums\<close>: the album data
  with the folder name added, or \<^verbatim>\<open>null\<close> (here \<^term>\<open>None\<close>) after any failure.  The
  page is a classic script, so the assignment of \<^verbatim>\<open>folderName\<close> to a value that is not
  an object is silently dropped; on an array the added property is not represented.
\<close>

definition load_album :: "browser \<Rightarrow> (string \<Rightarrow> response) \<Rightarrow> json \<Rightarrow> json option" where
  "load_album b fetch albumName =
     (case fetch (''albums/'' @ template b (Some albumName) @ ''.json'') of
        Rejected m \<Rightarrow> None
      | Response status body \<Rightarrow>
          (if \<not> ok status then None
           else case body of
             Inl m \<Rightarrow> None
           | Inr JNull \<Rightarrow> None
           | Inr (JObj fs) \<Rightarrow> Some (JObj (AList.update ''folderName'' albumName fs))
           | Inr albumData \<Rightarrow> Some albumData))"

text \<open>
  The comparator \<^verbatim>\<open>(a, b) => new Date(b.date) - new Date(a.date)\<close>; the difference is
  NaN, here \<^term>\<open>None\<close>, when one of the two dates is invalid.
\<close>

definition album_date :: "browser \<Rightarrow> json \<Rightarrow> int option" where
  "album_date b a =
     date_value b (case get_property b a ''date'' of Inr v \<Rightarrow> v | Inl e \<Rightarrow> None)"

definition compare_albums :: "browser \<Rightarrow> json \<Rightarrow> json \<Rightarrow> int option" where
  "compare_albums b x y =
     (case (album_date b y, album_date b x) of
        (Some ty, Some tx) \<Rightarrow> Some (ty - tx)
      | other \<Rightarrow> None)"

text \<open>
  \<^verbatim>\<open>Array.prototype.sort\<close> is stable, and puts x after y only when the comparator is
  positive on (x, y); NaN counts as zero.  For a comparator that is a consistent ordering
  the result is fixed by that, and an insertion sort computes it; for any other
  comparator the standard leaves the order to the engine, and the model is one choice.
\<close>

fun sort_insert :: "('a \<Rightarrow> 'a \<Rightarrow> int option) \<Rightarrow> 'a \<Rightarrow> 'a list \<Rightarrow> 'a list" where
  "sort_insert cmp x [] = [x]"
| "sort_insert cmp x (y # ys) =
     (if (case cmp x y of Some v \<Rightarrow> 0 < v | None \<Rightarrow> False) then y # sort_insert cmp x ys
      else x # y # ys)"

definition array_sort :: "('a \<Rightarrow> 'a \<Rightarrow> int option) \<Rightarrow> 'a list \<Rightarrow> 'a list" where
  "array_sort cmp xs = foldr (sort_insert cmp) xs []"

text \<open>\<^verbatim>\<open>loadAlbums\<close>: the new value of \<^verbatim>\<open>albumsData\<close>, or the error it throws.\<close>

definition loadAlbums :: "browser \<Rightarrow> (string \<Rightarrow> response) \<Rightarrow> js_error + json list" where
  "loadAlbums b fetch =
     (case fetch ''albums.json'' of
        Rejected m \<Rightarrow> Inl (NetworkError m)
      | Response status body \<Rightarrow>
          (if \<not> ok status then Inl (HttpError status)
           else case body of
             Inl m \<Rightarrow> Inl (SyntaxError m)
           | Inr manifest \<Rightarrow>
               (case get_property b manifest ''albums'' of
                  Inl e \<Rightarrow> Inl e
                | Inr (Some (JArr albumNames)) \<Rightarrow>
                    (let results = map (load_album b fetch) albumNames;
                         albumsData = List.map_filter (\<lambda>album. album) results
                     in Inr (array_sort (compare_albums b) albumsData))
                | Inr other \<Rightarrow> Inl (TypeError (type_error_message b)))))"

text \<open>
  \<^verbatim>\<open>initAlbumList\<close>: what the album grid shows afterwards, the cards of the albums or
  the error panel with its message.
\<close>

datatype page = AlbumGrid "json list" | ErrorPanel string

definition initAlbumList :: "browser \<Rightarrow> (string \<Rightarrow> response) \<Rightarrow> page" where
  "initAlbumList b fetch =
     (case loadAlbums b fetch of
        Inl error \<Rightarrow> ErrorPanel (''Failed to load albums: '' @ message error)
      | Inr albumsData \<Rightarrow> AlbumGrid albumsData)"

section \<open>Properties named by the specification\<close>

text \<open>
  The specification's atomic write, in its words: every state of the directory that can
  be observed while the file is written shows either the previous file (or its absence)
  or the complete new file.
\<close>

definition spec_atomic_write :: "string \<Rightarrow> string \<Rightarrow> dir \<Rightarrow> bool" where
  "spec_atomic_write name text E =
     list_all (\<lambda>S. map_of S name = map_of E name \<or> map_of S name = Some (File text))
       (redirect_trace name text E)"

text \<open>Newest first: both dates are valid and the earlier element is not the older one.\<close>

definition newer_or_equal :: "browser \<Rightarrow> json \<Rightarrow> json \<Rightarrow> bool" where
  "newer_or_equal b x y =
     (case (album_date b x, album_date b y) of (Some tx, Some ty) \<Rightarrow> ty \<le> tx | other \<Rightarrow> False)"

text \<open>
  The names of the data model: the base name of the photo with index i of an album, and
  the original extension of a source file, which is what follows its last dot, in lower
  case.
\<close>

definition base_name :: "string \<Rightarrow> nat \<Rightarrow> string" where
  "base_name folderName i = folderName @ ''_'' @ dec i"

definition photo_extensions :: "string set" where
  "photo_extensions = {''jpg'', ''jpeg'', ''png''}"

definition original_extension :: "string \<Rightarrow> string" where
  "original_extension name = map lower_char (after_last (CHR ''.'') name)"

text \<open>
  What publishing is expected to leave for the source files \<^term>\<open>ps\<close> (name and bytes, in
  discovery order) numbered from \<^term>\<open>k\<close>: the archival copies, the thumbnails, and
  the photo records (webp name and original extension); and the \<^verbatim>\<open>photo_data\<close> entry
  of a record.
\<close>

definition full_entries :: "string \<Rightarrow> nat \<Rightarrow> (string \<times> string) list \<Rightarrow> dir" where
  "full_entries folderName k ps =
     map (\<lambda>(i, (name, c)). (base_name folderName i @ ''.'' @ original_extension name, File c))
       (List.enumerate k ps)"

definition low_entries :: "tools \<Rightarrow> string \<Rightarrow> nat \<Rightarrow> (string \<times> string) list \<Rightarrow> dir" where
  "low_entries t folderName k ps =
     map (\<lambda>(i, (name, c)). (base_name folderName i @ ''.webp'', File (the (ffmpeg t c))))
       (List.enumerate k ps)"

definition photo_records :: "string \<Rightarrow> nat \<Rightarrow> (string \<times> string) list \<Rightarrow> (string \<times> string) list" where
  "photo_records folderName k ps =
     map (\<lambda>(i, (name, c)). (base_name folderName i @ ''.webp'', original_extension name))
       (List.enumerate k ps)"

definition photo_data_of :: "(string \<times> string) list \<Rightarrow> string list" where
  "photo_data_of records = map (\<lambda>(webName, ext). webName @ '':'' @ ext) records"

text \<open>
  The metadata file of the data model, byte for byte: the four fields of the album and
  the array of photo records, one record on a line, the lines separated by commas.
\<close>

definition quoted :: "string \<Rightarrow> string" where
  "quoted s = [CHR 0x22] @ s @ [CHR 0x22]"

fun comma_separated :: "string list \<Rightarrow> string" where
  "comma_separated [] = []"
| "comma_separated [x] = x"
| "comma_separated (x # y # ys) = x @ '','' @ comma_separated (y # ys)"



text \<open>
  The global manifest, byte for byte: the array of the album names, one name on a line.
\<close>

definition manifest_line :: "string \<Rightarrow> string" where
  "manifest_line name = [CHR 0x0A] @ ''    '' @ quoted name"

definition manifest_text :: "string list \<Rightarrow> string" where
  "manifest_text names =
     ''{'' @ [CHR 0x0A]
     @ ''  '' @ quoted ''albums'' @ '': ['' @ comma_separated (map manifest_line names)
         @ [CHR 0x0A] @ ''  ]'' @ [CHR 0x0A]
     @ ''}'' @ [CHR 0x0A]"

text \<open>
  The manifest as the specification words it lists the directory names of the album
  directories in which \<^verbatim>\<open>data.json\<close> is present.
\<close>

definition spec_album_names :: "dir \<Rightarrow> string list" where
  "spec_album_names A =
     map fst (filter (\<lambda>(name, x). case x of
                                     Dir E \<Rightarrow> is_file (map_of E ''data.json'')
                                   | File c \<Rightarrow> False) A)"

text \<open>
  A directory name that the manifest carries unchanged: a name of the file system (not
  empty, without a slash) that holds no backslash and does not end in a newline.
\<close>

definition plain_name :: "string \<Rightarrow> bool" where
  "plain_name name =
     (name \<noteq> [] \<and> CHR ''/'' \<notin> set name \<and> CHR 0x5C \<notin> set name \<and> last name \<noteq> CHR 0x0A)"

text \<open>
  A raw album: a directory with distinct entry names, without metadata and without the
  two derived subdirectories.
\<close>

definition raw_album :: "dir \<Rightarrow> bool" where
  "raw_album E =
     (distinct (map fst E) \<and> map_of E ''low'' = None \<and> map_of E ''full'' = None
      \<and> map_of E ''data.json'' = None)"

text \<open>
  Where the album directory \<^term>\<open>old_name\<close> of \<^term>\<open>A\<close> is found in \<^term>\<open>A'\<close> once
  \<^verbatim>\<open>mv\<close> has moved it to \<^term>\<open>new_name\<close>: under the new name, or inside the directory
  that already had that name.
\<close>

definition album_after :: "string \<Rightarrow> string \<Rightarrow> dir \<Rightarrow> dir \<Rightarrow> node option" where
  "album_after old_name new_name A A' =
     (if old_name = new_name then map_of A' old_name
      else case map_of A new_name of
        Some (Dir D) \<Rightarrow>
          (case map_of A' new_name of Some (Dir D') \<Rightarrow> map_of D' old_name | other \<Rightarrow> None)
      | other \<Rightarrow> map_of A' new_name)"

text \<open>
  Every match of \<^verbatim>\<open>full/*\<close> can be moved into the album root, and there is one.
\<close>

definition movable :: "dir \<Rightarrow> dir \<Rightarrow> bool" where
  "movable F E =
     (glob_star F \<noteq> []
      \<and> list_all (\<lambda>name. case map_of F name of
                            Some x \<Rightarrow> can_replace x (map_of E name)
                          | None \<Rightarrow> False)
          (glob_star F))"

text \<open>
  The source files \<^term>\<open>ps\<close> as a reset after publishing is expected to restore them:
  the original bytes under the generated names.
\<close>

definition restored_photos :: "string \<Rightarrow> (string \<times> string) list \<Rightarrow> (string \<times> string) list" where
  "restored_photos folderName ps =
     map (\<lambda>(i, (name, c)). (base_name folderName i @ ''.'' @ original_extension name, c))
       (List.enumerate 1 ps)"

text \<open>
  The reset as the claim words it: every entry that is in \<^verbatim>\<open>full/\<close> at invocation is
  in the album root afterwards, and the reported count is their number.
\<close>

definition spec_restores_full :: "dir \<Rightarrow> dir \<Rightarrow> nat \<Rightarrow> bool" where
  "spec_restores_full F E' photo_count =
     (list_all (\<lambda>(name, x). map_of E' name = Some x) F \<and> photo_count = length F)"

section \<open>Concrete inputs\<close>

definition example_tools :: tools where
  "example_tools =
     \<lparr>ffmpeg = (\<lambda>c. if c = [] then None else Some (''RIFF'' @ c)),
      echo_e_other = (\<lambda>s. s @ [CHR 0x0A])\<rparr>"

definition example_browser :: browser where
  "example_browser =
     \<lparr>number_text = (\<lambda>n. ''0''),
      date_value = (\<lambda>v. if v = Some (JStr ''2024-03-01T10:00:00Z'') then Some 1709287200000
                         else if v = Some (JStr ''2024-05-01T10:00:00Z'') then Some 1714557600000
                         else None),
      type_error_message = ''TypeError''\<rparr>"

text \<open>A server without \<^verbatim>\<open>albums.json\<close>: every request is answered with status 404.\<close>

definition fetch_not_found :: "string \<Rightarrow> response" where
  "fetch_not_found url = Response 404 (Inl ''Unexpected token'')"

text \<open>
  A published site with three albums in its manifest; the metadata of the second is not
  valid JSON, and the third is the most recent.
\<close>

definition fetch_three :: "string \<Rightarrow> response" where
  "fetch_three url =
     (if url = ''albums.json''
        then Response 200 (Inr (JObj [(''albums'', JArr [JStr ''rush'', JStr ''formal'', JStr ''retreat''])]))
      else if url = ''albums/rush.json''
        then Response 200 (Inr (JObj [(''name'', JStr ''Rush''), (''date'', JStr ''2024-03-01T10:00:00Z'')]))
      else if url = ''albums/formal.json''
        then Response 200 (Inl ''Unexpected token'')
      else if url = ''albums/retreat.json''
        then Response 200 (Inr (JObj [(''name'', JStr ''Retreat''), (''date'', JStr ''2024-05-01T10:00:00Z'')]))
      else Response 404 (Inl ''Unexpected token''))"

text \<open>A raw album of two photos and a text file, and its publication.\<close>

definition example_album :: dir where
  "example_album =
     [(''IMG_2.JPG'', File ''bbb''), (''notes.txt'', File ''plan''), (''IMG_1.png'', File ''aaa'')]"

definition example_albums :: dir where
  "example_albums = [(''Rush Week'', Dir example_album)]"

definition example_published :: "outcome \<times> dir" where
  "example_published =
     process_album example_tools ''Rush Week'' ''Ann'' ''2024-03-01T10:00:00Z'' 7 ''Rush Week''
       example_albums"

text \<open>
  A site with two published albums and an album that is not yet published; and a site
  in which an earlier album was put aside in a directory whose name begins with a dot.
\<close>

definition example_site_albums :: dir where
  "example_site_albums =
     [(''rush'', Dir [(''data.json'', File ''{}''), (''low'', Dir []), (''full'', Dir [])]),
      (''new folder'', Dir [(''a.jpg'', File ''abc'')]),
      (''formal'', Dir [(''data.json'', File ''{}'')])]"

definition example_archive_albums :: dir where
  "example_archive_albums =
     [(''.archive'', Dir [(''data.json'', File ''{}'')]),
      (''rush'', Dir [(''data.json'', File ''{}'')])]"

text \<open>
  A published album whose \<^verbatim>\<open>full/\<close> holds a photo and a hidden file left by a file
  manager.
\<close>

definition example_reset_album :: dir where
  "example_reset_album =
     [(''data.json'', File ''{}''),
      (''low'', Dir [(''rush_1.webp'', File ''RIFFabc'')]),
      (''full'', Dir [(''.DS_Store'', File ''x''), (''rush_1.jpg'', File ''abc'')])]"

definition example_reset_albums :: dir where
  "example_reset_albums = [(''rush'', Dir example_reset_album)]"

section \<open>Folder-name normalization\<close>

lemma lower_char_newline: "lower_char (CHR 0x0A) = CHR 0x0A"
  by (simp add: lower_char_def upper_chars_def lower_chars_def)

lemma newline_not_kept: "\<not> (is_alnum (CHR 0x0A) \<or> CHR 0x0A = CHR ''_'')"
  by (simp add: is_alnum_def upper_chars_def lower_chars_def digit_chars_def)

lemma to_snake_case_plain:
  "\<not> echo_option s \<Longrightarrow>
     to_snake_case s = tr_keep_alnum_underscore (tr_space_underscore (tr_upper_lower s))"
  using newline_not_kept
  by (simp add: to_snake_case_def echo_def tr_keep_alnum_underscore_def
      tr_space_underscore_def tr_upper_lower_def lower_char_newline)

lemma to_snake_case_option: "echo_option s \<Longrightarrow> to_snake_case s = []"
  using newline_not_kept
  by (simp add: to_snake_case_def echo_def tr_keep_alnum_underscore_def
      tr_space_underscore_def tr_upper_lower_def lower_char_newline)

lemma to_snake_case_chars: "c \<in> set (to_snake_case s) \<Longrightarrow> is_alnum c \<or> c = CHR ''_''"
  by (simp add: to_snake_case_def tr_keep_alnum_underscore_def)

text \<open>
  Claim C5, as stated: the derived folder name is the display name lower-cased, with
  whitespace collapsed to underscore, and every other non-alphanumeric character stripped.
  The code replaces each single space by its own underscore and collapses nothing: two
  spaces give two underscores.
\<close>

theorem to_snake_case_not_collapsing:
  "to_snake_case ''a  b'' = ''a__b'' \<and> spec_normalize ''a  b'' = ''a_b''
     \<and> to_snake_case ''a  b'' \<noteq> spec_normalize ''a  b''"
  by (simp add: to_snake_case_def spec_normalize_def echo_def echo_option_def
      tr_keep_alnum_underscore_def tr_space_underscore_def tr_upper_lower_def
      collapse_whitespace_def lower_char_def is_alnum_def is_space_def upper_chars_def lower_chars_def digit_chars_def)

text \<open>
  Claim C5, amended: for every display name that \<^verbatim>\<open>echo\<close> does not take for an option
  word, the folder name is the display name with upper-case letters lower-cased, then every
  space byte replaced by one underscore, then every byte that is not alphanumeric or
  underscore deleted; and "Spring Formal 2024!" becomes "spring_formal_2024".
\<close>

theorem to_snake_case_spec:
  "(\<not> echo_option s \<longrightarrow>
      to_snake_case s
        = filter (\<lambda>c. is_alnum c \<or> c = CHR ''_'')
            (map (\<lambda>c. if c = CHR '' '' then CHR ''_'' else c) (map lower_char s)))
   \<and> to_snake_case ''Spring Formal 2024!'' = ''spring_formal_2024''"
proof
  show "\<not> echo_option s \<longrightarrow>
      to_snake_case s
        = filter (\<lambda>c. is_alnum c \<or> c = CHR ''_'')
            (map (\<lambda>c. if c = CHR '' '' then CHR ''_'' else c) (map lower_char s))"
    using to_snake_case_plain [of s]
    by (simp add: tr_keep_alnum_underscore_def tr_space_underscore_def tr_upper_lower_def)
  show "to_snake_case ''Spring Formal 2024!'' = ''spring_formal_2024''"
    by (simp add: to_snake_case_def echo_def echo_option_def
        tr_keep_alnum_underscore_def tr_space_underscore_def tr_upper_lower_def
        lower_char_def is_alnum_def upper_chars_def lower_chars_def digit_chars_def)
qed

theorem to_snake_case_spec_witness:
  "\<not> echo_option ''My Trip'' \<and> to_snake_case ''My Trip'' = ''my_trip''"
proof -
  have h: "\<not> echo_option ''My Trip''"
    by (simp add: echo_option_def)
  have "to_snake_case ''My Trip''
        = filter (\<lambda>c. is_alnum c \<or> c = CHR ''_'')
            (map (\<lambda>c. if c = CHR '' '' then CHR ''_'' else c) (map lower_char ''My Trip''))"
    using to_snake_case_spec [of "''My Trip''"] h by blast
  then show ?thesis
    using h
    by (simp add: lower_char_def is_alnum_def upper_chars_def lower_chars_def digit_chars_def)
qed

section \<open>An album without photos\<close>

lemma photo_entries_empty_iff:
  "photo_entries E = [] \<longleftrightarrow> (\<forall>(name, x) \<in> set E. \<forall>c. x = File c \<longrightarrow> \<not> is_photo_name name)"
  by (induction E rule: photo_entries.induct) auto

lemma transform_album_empty:
  "photo_entries E = [] \<Longrightarrow>
     transform_album t album_name photographer_name timestamp random album_path E = (EmptyAlbum, E)"
  by (simp add: transform_album_def find_photos_def)

text \<open>
  Claim C9: when an album directory holds no regular file whose name ends, in any letter
  case, in .jpg, .jpeg or .png, publishing it reports the empty album and leaves the whole
  of \<^verbatim>\<open>public/albums\<close> as it was: no subdirectory made, no metadata written, no file
  removed, no directory renamed.
\<close>

theorem process_album_empty_untouched:
  assumes "map_of A album_dir_name = Some (Dir E)"
    and "\<forall>(name, x) \<in> set E. \<forall>c. x = File c \<longrightarrow> \<not> is_photo_name name"
  shows "process_album t album_name photographer_name timestamp random album_dir_name A
           = (EmptyAlbum, A)"
proof -
  have "photo_entries E = []"
    using assms(2) by (simp add: photo_entries_empty_iff)
  then have "transform_album t album_name photographer_name timestamp random
               (ALBUMS_DIR @ ''/'' @ album_dir_name @ ''/'') E = (EmptyAlbum, E)"
    by (rule transform_album_empty)
  moreover have "AList.update album_dir_name (Dir E) A = A"
    using assms(1) by (rule AList.update_triv)
  ultimately show ?thesis
    using assms(1) by (simp add: process_album_def Let_def)
qed

theorem process_album_empty_untouched_witness:
  "process_album example_tools ''Spring Formal'' ''Ann'' ''2024-03-01T10:00:00Z'' 5 ''new folder''
     [(''new folder'', Dir [(''notes.txt'', File ''to do''), (''scans.jpg'', Dir [])])]
   = (EmptyAlbum, [(''new folder'', Dir [(''notes.txt'', File ''to do''), (''scans.jpg'', Dir [])])])"
proof -
  have "\<not> is_photo_name ''notes.txt''"
    by (simp add: is_photo_name_def iname_suffix_def lower_char_def upper_chars_def lower_chars_def)
  then show ?thesis
    using process_album_empty_untouched
      [of "[(''new folder'', Dir [(''notes.txt'', File ''to do''), (''scans.jpg'', Dir [])])]"
          "''new folder''" "[(''notes.txt'', File ''to do''), (''scans.jpg'', Dir [])]"]
    by simp
qed

section \<open>Writing the metadata file\<close>

lemma redirect_trace_file:
  "\<not> is_dir (map_of E name) \<Longrightarrow>
     redirect_trace name text E
       = [AList.update name (File []) E, AList.update name (File text) E]"
  by (simp add: redirect_trace_def open_truncate_def write_output_def)

lemma redirect_to_file:
  "\<not> is_dir (map_of E name) \<Longrightarrow> redirect_to name text E = Some (AList.update name (File text) E)"
  by (simp add: redirect_to_def redirect_trace_file)

lemma redirect_to_dir: "is_dir (map_of E name) \<Longrightarrow> redirect_to name text E = None"
  by (simp add: redirect_to_def redirect_trace_def open_truncate_def)

text \<open>
  Claim C3, as stated: every observable state of a write of \<^verbatim>\<open>data.json\<close> shows the
  previous file (or none) or the complete one.  The script writes through a redirection,
  in place: in an album that had no metadata, the file exists and is empty before the
  text arrives.
\<close>

theorem data_json_write_not_atomic:
  "\<not> spec_atomic_write ''data.json''
       (data_json_text example_tools ''Rush'' ''Ann'' ''2024-03-01T10:00:00Z'' ''rush_1.webp''
          [''rush_1.webp:jpg''])
       [(''low'', Dir [(''rush_1.webp'', File ''RIFFabc'')]),
        (''full'', Dir [(''rush_1.jpg'', File ''abc'')])]"
  by (simp add: spec_atomic_write_def redirect_trace_def open_truncate_def write_output_def
      data_json_text_def)

text \<open>
  Claim C3, amended: \<^verbatim>\<open>data.json\<close> is written in place.  Unless a directory of that
  name is in the way (then the write fails and nothing changes), the file is first created
  empty or cut to length zero and then filled: the write passes through a state with an
  empty \<^verbatim>\<open>data.json\<close> and ends with the complete text, and no other entry of the album
  changes in either state.
\<close>

theorem data_json_written_in_place:
  "(is_dir (map_of E ''data.json'') \<longrightarrow>
      redirect_to ''data.json'' text E = None \<and> redirect_trace ''data.json'' text E = [])
   \<and> (\<not> is_dir (map_of E ''data.json'') \<longrightarrow>
        (\<exists>E1 E2. redirect_trace ''data.json'' text E = [E1, E2]
           \<and> redirect_to ''data.json'' text E = Some E2
           \<and> map_of E1 ''data.json'' = Some (File [])
           \<and> map_of E2 ''data.json'' = Some (File text)
           \<and> (\<forall>name. name \<noteq> ''data.json'' \<longrightarrow>
                 map_of E1 name = map_of E name \<and> map_of E2 name = map_of E name)))"
proof (intro conjI impI)
  assume "is_dir (map_of E ''data.json'')"
  then show "redirect_to ''data.json'' text E = None"
    by (rule redirect_to_dir)
next
  assume "is_dir (map_of E ''data.json'')"
  then show "redirect_trace ''data.json'' text E = []"
    by (simp add: redirect_trace_def open_truncate_def)
next
  assume nodir: "\<not> is_dir (map_of E ''data.json'')"
  let ?E1 = "AList.update ''data.json'' (File []) E"
  let ?E2 = "AList.update ''data.json'' (File text) E"
  have "redirect_trace ''data.json'' text E = [?E1, ?E2]"
    using nodir by (rule redirect_trace_file)
  moreover have "redirect_to ''data.json'' text E = Some ?E2"
    using nodir by (rule redirect_to_file)
  moreover have "map_of ?E1 ''data.json'' = Some (File [])"
    and "map_of ?E2 ''data.json'' = Some (File text)"
    by (simp_all add: AList.update_conv')
  moreover have "\<forall>name. name \<noteq> ''data.json'' \<longrightarrow>
                   map_of ?E1 name = map_of E name \<and> map_of ?E2 name = map_of E name"
    by (simp add: AList.update_conv')
  ultimately show "\<exists>E1 E2. redirect_trace ''data.json'' text E = [E1, E2]
           \<and> redirect_to ''data.json'' text E = Some E2
           \<and> map_of E1 ''data.json'' = Some (File [])
           \<and> map_of E2 ''data.json'' = Some (File text)
           \<and> (\<forall>name. name \<noteq> ''data.json'' \<longrightarrow>
                 map_of E1 name = map_of E name \<and> map_of E2 name = map_of E name)"
    by blast
qed

theorem data_json_written_in_place_witness:
  "redirect_trace ''data.json'' ''{}'' [(''full'', Dir []), (''data.json'', File ''old'')]
     = [[(''full'', Dir []), (''data.json'', File [])],
        [(''full'', Dir []), (''data.json'', File ''{}'')]]
   \<and> redirect_to ''data.json'' ''{}'' [(''data.json'', Dir [])] = None"
proof -
  have "redirect_to ''data.json'' ''{}'' [(''data.json'', Dir [])] = None"
    using data_json_written_in_place [of "[(''data.json'', Dir [])]" "''{}''"] by simp
  moreover have "redirect_trace ''data.json'' ''{}'' [(''full'', Dir []), (''data.json'', File ''old'')]
     = [[(''full'', Dir []), (''data.json'', File [])],
        [(''full'', Dir []), (''data.json'', File ''{}'')]]"
    by (simp add: redirect_trace_def open_truncate_def write_output_def)
  ultimately show ?thesis by simp
qed

section \<open>The output of echo -e\<close>

lemma only_newline_escapes_Cons:
  "CHR 0x5C \<noteq> c \<Longrightarrow> only_newline_escapes (c # s) = only_newline_escapes s"
  by (cases s) auto

lemma unescape_newlines_Cons:
  "CHR 0x5C \<noteq> c \<Longrightarrow> unescape_newlines (c # s) = c # unescape_newlines s"
  by (cases s) auto

lemma only_newline_escapes_plain:
  "CHR 0x5C \<notin> set p \<Longrightarrow> only_newline_escapes (p @ s) = only_newline_escapes s"
  by (induction p) (simp_all add: only_newline_escapes_Cons)

lemma unescape_newlines_plain:
  "CHR 0x5C \<notin> set p \<Longrightarrow> unescape_newlines (p @ s) = p @ unescape_newlines s"
  by (induction p) (simp_all add: unescape_newlines_Cons)

lemma comma_separated_Cons:
  "comma_separated (x # xs) = x @ concat (map (\<lambda>y. '','' @ y) xs)"
  by (induction xs arbitrary: x) simp_all

lemma comma_separated_enumerate:
  "concat (map (\<lambda>(k, x). (if k = 0 then [] else '','') @ f x) (List.enumerate 0 xs))
     = comma_separated (map f xs)"
proof (cases xs)
  case Nil
  then show ?thesis by simp
next
  case (Cons x ys)
  have "concat (map (\<lambda>(k, x). (if k = 0 then [] else '','') @ f x) (List.enumerate i ys))
          = concat (map (\<lambda>y. '','' @ y) (map f ys))" if "0 < i" for i
    using that by (induction ys arbitrary: i) simp_all
  with Cons show ?thesis
    by (simp add: comma_separated_Cons)
qed

section \<open>Regenerating the manifest\<close>

lemma json_content_loop_closed:
  "json_content_loop i albums acc
     = acc @ concat (map (\<lambda>(k, album). (if k = 0 then [] else '','') @ album_json_entry album)
              (List.enumerate i albums))"
  by (induction albums arbitrary: i acc) simp_all

lemma album_json_entry_escapes:
  "CHR 0x5C \<notin> set album \<Longrightarrow>
     only_newline_escapes (album_json_entry album @ rest) = only_newline_escapes rest
     \<and> unescape_newlines (album_json_entry album @ rest)
         = manifest_line album @ unescape_newlines rest"
  by (simp add: album_json_entry_def manifest_line_def quoted_def only_newline_escapes_Cons
      unescape_newlines_Cons only_newline_escapes_plain unescape_newlines_plain)

lemma album_json_entries_escapes:
  "list_all (\<lambda>name. CHR 0x5C \<notin> set name) albums \<Longrightarrow>
     only_newline_escapes
        (concat (map (\<lambda>(k, album). (if k = 0 then [] else '','') @ album_json_entry album)
              (List.enumerate i albums)) @ rest)
       = only_newline_escapes rest
     \<and> unescape_newlines
        (concat (map (\<lambda>(k, album). (if k = 0 then [] else '','') @ album_json_entry album)
              (List.enumerate i albums)) @ rest)
       = concat (map (\<lambda>(k, album). (if k = 0 then [] else '','') @ manifest_line album)
              (List.enumerate i albums)) @ unescape_newlines rest"
  by (induction albums arbitrary: i)
     (simp_all add: only_newline_escapes_Cons unescape_newlines_Cons album_json_entry_escapes)

lemma echo_e_json_content:
  assumes "list_all (\<lambda>name. CHR 0x5C \<notin> set name) albums"
  shows "echo_e t (build_json_content albums) = manifest_text albums"
proof -
  have opt: "\<not> echo_option (build_json_content albums)"
    by (simp add: build_json_content_def json_content_loop_closed echo_option_def)
  have esc: "only_newline_escapes (build_json_content albums)"
    by (simp add: build_json_content_def json_content_loop_closed
        album_json_entries_escapes [OF assms] only_newline_escapes_Cons)
  have "unescape_newlines (build_json_content albums) @ [CHR 0x0A]
          = ''{'' @ [CHR 0x0A] @ ''  '' @ quoted ''albums'' @ '': [''
              @ concat (map (\<lambda>(k, album). (if k = 0 then [] else '','') @ manifest_line album)
                  (List.enumerate 0 albums))
              @ [CHR 0x0A] @ ''  ]'' @ [CHR 0x0A] @ ''}'' @ [CHR 0x0A]"
    by (simp add: build_json_content_def json_content_loop_closed quoted_def
        album_json_entries_escapes [OF assms] unescape_newlines_Cons)
  also have "\<dots> = manifest_text albums"
    by (simp add: manifest_text_def comma_separated_enumerate)
  finally have "unescape_newlines (build_json_content albums) @ [CHR 0x0A] = manifest_text albums" .
  with opt esc show ?thesis
    by (simp add: echo_e_def)
qed

lemma is_dir_Some: "is_dir (Some x) \<longleftrightarrow> (\<exists>E. x = Dir E)"
  by (cases x) auto

lemma set_glob_star_slash:
  "set (glob_star_slash A) = {name. \<not> hidden name \<and> (\<exists>E. (name, Dir E) \<in> set A)}"
  by (force simp: glob_star_slash_def is_dir_Some)

lemma in_album_dirs:
  "name \<in> set (album_dirs A)
     \<longleftrightarrow> \<not> hidden name \<and> (\<exists>E. map_of A name = Some (Dir E) \<and> is_file (map_of E ''data.json''))"
proof (cases "map_of A name")
  case None
  then show ?thesis by (simp add: album_dirs_def)
next
  case (Some x)
  then have "(name, x) \<in> set A" by (rule map_of_SomeD)
  with Some show ?thesis
    by (cases x) (auto simp: album_dirs_def set_glob_star_slash)
qed

lemma sorted_album_dirs: "sorted (album_dirs A)"
  by (simp add: album_dirs_def glob_star_slash_def sorted_wrt_filter)

lemma distinct_album_dirs: "distinct (map fst A) \<Longrightarrow> distinct (album_dirs A)"
  by (simp add: album_dirs_def glob_star_slash_def distinct_map_filter)

lemma basename_album_dir:
  assumes "name \<noteq> []" and "CHR ''/'' \<notin> set name"
  shows "basename (ALBUMS_DIR @ ''/'' @ name @ ''/'') = name @ [CHR 0x0A]"
proof -
  obtain c cs where r: "rev name = c # cs"
    using assms(1) by (cases "rev name") auto
  then have c: "c \<noteq> CHR ''/''"
    using assms(2) by (metis list.set_intros(1) set_rev)
  have t: "takeWhile (\<lambda>x. x \<noteq> CHR ''/'') (rev name @ CHR ''/'' # rev ALBUMS_DIR) = rev name"
    using assms(2) by (subst takeWhile_append2) auto
  show ?thesis
    using r c t by (simp add: basename_def Let_def)
qed

lemma command_subst_line:
  assumes "name \<noteq> []" and "last name \<noteq> CHR 0x0A"
  shows "command_subst (name @ [CHR 0x0A]) = name"
proof -
  obtain c cs where r: "rev name = c # cs"
    using assms(1) by (cases "rev name") auto
  then have "c = last name"
    by (metis assms(1) last_rev list.sel(1) hd_rev rev_rev_ident)
  with assms(2) have "dropWhile (\<lambda>c. c = CHR 0x0A) (c # cs) = c # cs"
    by simp
  then have "dropWhile (\<lambda>c. c = CHR 0x0A) (rev name) = rev name"
    unfolding r .
  then show ?thesis
    by (simp add: command_subst_def)
qed

lemma basename_plain_name:
  "plain_name name \<Longrightarrow> command_subst (basename (ALBUMS_DIR @ ''/'' @ name @ ''/'')) = name"
  unfolding plain_name_def using basename_album_dir [of name] command_subst_line [of name]
  by simp

lemma published_albums_plain:
  assumes "list_all plain_name (album_dirs A)"
  shows "published_albums A = album_dirs A"
proof -
  have "map (\<lambda>name. command_subst (basename (ALBUMS_DIR @ ''/'' @ name @ ''/''))) (album_dirs A)
          = album_dirs A"
  proof (rule map_idI)
    fix name
    assume "name \<in> set (album_dirs A)"
    with assms have "plain_name name"
      by (simp add: list_all_iff)
    then show "command_subst (basename (ALBUMS_DIR @ ''/'' @ name @ ''/'')) = name"
      by (rule basename_plain_name)
  qed
  then show ?thesis
    by (simp only: published_albums_def)
qed

lemma plain_names_no_backslash:
  "list_all plain_name names \<Longrightarrow> list_all (\<lambda>name. CHR 0x5C \<notin> set name) names"
  by (simp add: list_all_iff plain_name_def)

lemma generate_not_dir:
  "\<not> (\<exists>A. albums_dir s = Some (Dir A)) \<Longrightarrow> generate_albums_manifest t s = (True, s)"
  by (cases "albums_dir s") (auto simp: generate_albums_manifest_def split: node.splits)

lemma generate_blocked:
  "albums_dir s = Some (Dir A) \<Longrightarrow> is_dir (albums_json s) \<Longrightarrow>
     generate_albums_manifest t s = (False, s)"
  by (simp add: generate_albums_manifest_def)

lemma generate_written:
  "albums_dir s = Some (Dir A) \<Longrightarrow> \<not> is_dir (albums_json s) \<Longrightarrow>
     generate_albums_manifest t s
       = (True, s\<lparr>albums_json := Some (File (echo_e t (build_json_content (published_albums A))))\<rparr>)"
  by (simp add: generate_albums_manifest_def)

lemma generate_twice:
  "generate_albums_manifest t (snd (generate_albums_manifest t s)) = generate_albums_manifest t s"
proof (cases "\<exists>A. albums_dir s = Some (Dir A)")
  case False
  then show ?thesis by (simp add: generate_not_dir)
next
  case True
  then obtain A where A: "albums_dir s = Some (Dir A)" by blast
  show ?thesis
  proof (cases "is_dir (albums_json s)")
    case True
    with A show ?thesis by (simp add: generate_blocked)
  next
    case False
    let ?s' = "s\<lparr>albums_json := Some (File (echo_e t (build_json_content (published_albums A))))\<rparr>"
    have 1: "generate_albums_manifest t s = (True, ?s')"
      using A False by (rule generate_written)
    have "generate_albums_manifest t ?s' = (True, ?s')"
      using generate_written [of ?s' A t] A by simp
    with 1 show ?thesis by simp
  qed
qed

lemma generate_manifest_text:
  assumes "albums_dir s = Some (Dir A)" and "\<not> is_dir (albums_json s)"
    and "list_all plain_name (album_dirs A)"
  shows "albums_json (snd (generate_albums_manifest t s))
           = Some (File (manifest_text (album_dirs A)))"
proof -
  have "echo_e t (build_json_content (published_albums A)) = manifest_text (album_dirs A)"
    using assms(3) by (simp add: published_albums_plain echo_e_json_content plain_names_no_backslash)
  then show ?thesis
    using assms(1,2) by (simp add: generate_written)
qed

text \<open>
  The name that \<^verbatim>\<open>$(basename "$album_dir")\<close> yields is the directory name without its
  trailing newlines.
\<close>

lemma published_albums_newline_name:
  "published_albums [(''x'' @ [CHR 0x0A], Dir [(''data.json'', File ''{}'')])] = [''x'']"
  by code_simp

text \<open>
  Claim C7, as stated: the manifest written contains exactly the directory names of the
  album directories in which \<^verbatim>\<open>data.json\<close> is present.  The script finds the album
  directories with the pattern \<^verbatim>\<open>"$ALBUMS_DIR"/*/\<close>, which does not match a name that
  begins with a dot: an album put aside as \<^verbatim>\<open>.archive\<close> keeps its \<^verbatim>\<open>data.json\<close>
  and is not listed.
\<close>

theorem manifest_misses_hidden_album:
  "albums_json (snd (generate_albums_manifest example_tools
       \<lparr>albums_dir = Some (Dir example_archive_albums), albums_json = None\<rparr>))
     = Some (File (''{'' @ [CHR 0x0A]
         @ ''  '' @ [CHR 0x22] @ ''albums'' @ [CHR 0x22] @ '': ['' @ [CHR 0x0A]
         @ ''    '' @ [CHR 0x22] @ ''rush'' @ [CHR 0x22] @ [CHR 0x0A]
         @ ''  ]'' @ [CHR 0x0A]
         @ ''}'' @ [CHR 0x0A]))
   \<and> published_albums example_archive_albums = [''rush'']
   \<and> spec_album_names example_archive_albums = [''.archive'', ''rush'']"
  by code_simp

text \<open>
  Claim C7, amended: regenerating the manifest is idempotent, a second run on the state
  the first one left gives the same result and the same files.  When \<^verbatim>\<open>public/albums\<close>
  is a directory and \<^verbatim>\<open>public/albums.json\<close> is not one, and the names of the album
  directories found hold no backslash and do not end in a newline, the file written is,
  byte for byte, the manifest whose array lists the names found, one on a line; these are,
  in sorted order and each once, exactly the names not beginning with a dot of the
  directories of \<^verbatim>\<open>public/albums\<close> in which \<^verbatim>\<open>data.json\<close> is a regular file.
\<close>

theorem generate_albums_manifest_idempotent:
  "generate_albums_manifest t (snd (generate_albums_manifest t s)) = generate_albums_manifest t s
   \<and> (\<forall>A. albums_dir s = Some (Dir A) \<and> \<not> is_dir (albums_json s)
           \<and> list_all plain_name (album_dirs A) \<longrightarrow>
         albums_json (snd (generate_albums_manifest t s))
           = Some (File (manifest_text (album_dirs A)))
         \<and> sorted (album_dirs A)
         \<and> (distinct (map fst A) \<longrightarrow> distinct (album_dirs A))
         \<and> set (album_dirs A)
             = {name. \<not> hidden name
                  \<and> (\<exists>E. map_of A name = Some (Dir E) \<and> is_file (map_of E ''data.json''))})"
proof (intro conjI allI impI)
  show "generate_albums_manifest t (snd (generate_albums_manifest t s))
          = generate_albums_manifest t s"
    by (rule generate_twice)
next
  fix A
  assume "albums_dir s = Some (Dir A) \<and> \<not> is_dir (albums_json s)
            \<and> list_all plain_name (album_dirs A)"
  then show "albums_json (snd (generate_albums_manifest t s))
               = Some (File (manifest_text (album_dirs A)))"
    by (simp add: generate_manifest_text)
next
  fix A
  show "sorted (album_dirs A)"
    by (rule sorted_album_dirs)
next
  fix A :: dir
  assume "distinct (map fst A)"
  then show "distinct (album_dirs A)"
    by (rule distinct_album_dirs)
next
  fix A
  show "set (album_dirs A)
          = {name. \<not> hidden name
               \<and> (\<exists>E. map_of A name = Some (Dir E) \<and> is_file (map_of E ''data.json''))}"
    using in_album_dirs [of _ A] by blast
qed

theorem generate_albums_manifest_idempotent_witness:
  "album_dirs example_site_albums = [''formal'', ''rush'']
   \<and> list_all plain_name (album_dirs example_site_albums)
   \<and> albums_json (snd (generate_albums_manifest example_tools
        \<lparr>albums_dir = Some (Dir example_site_albums), albums_json = None\<rparr>))
     = Some (File (''{'' @ [CHR 0x0A]
         @ ''  '' @ [CHR 0x22] @ ''albums'' @ [CHR 0x22] @ '': ['' @ [CHR 0x0A]
         @ ''    '' @ [CHR 0x22] @ ''formal'' @ [CHR 0x22] @ '','' @ [CHR 0x0A]
         @ ''    '' @ [CHR 0x22] @ ''rush'' @ [CHR 0x22] @ [CHR 0x0A]
         @ ''  ]'' @ [CHR 0x0A]
         @ ''}'' @ [CHR 0x0A]))
   \<and> generate_albums_manifest example_tools
        (snd (generate_albums_manifest example_tools
           \<lparr>albums_dir = Some (Dir example_site_albums), albums_json = None\<rparr>))
     = generate_albums_manifest example_tools
         \<lparr>albums_dir = Some (Dir example_site_albums), albums_json = None\<rparr>"
proof -
  have dirs: "album_dirs example_site_albums = [''formal'', ''rush'']"
    by code_simp
  have plain: "list_all plain_name (album_dirs example_site_albums)"
    unfolding dirs by (simp add: plain_name_def)
  have doc: "manifest_text [''formal'', ''rush'']
     = ''{'' @ [CHR 0x0A]
         @ ''  '' @ [CHR 0x22] @ ''albums'' @ [CHR 0x22] @ '': ['' @ [CHR 0x0A]
         @ ''    '' @ [CHR 0x22] @ ''formal'' @ [CHR 0x22] @ '','' @ [CHR 0x0A]
         @ ''    '' @ [CHR 0x22] @ ''rush'' @ [CHR 0x22] @ [CHR 0x0A]
         @ ''  ]'' @ [CHR 0x0A]
         @ ''}'' @ [CHR 0x0A]"
    by (simp add: manifest_text_def manifest_line_def quoted_def)
  show ?thesis
    using generate_albums_manifest_idempotent
      [of example_tools "\<lparr>albums_dir = Some (Dir example_site_albums), albums_json = None\<rparr>"]
      dirs plain doc
    by simp
qed

section \<open>The album list of the gallery\<close>

lemma mset_sort_insert: "mset (sort_insert cmp x ys) = add_mset x (mset ys)"
  by (induction ys) auto

lemma mset_array_sort: "mset (array_sort cmp xs) = mset xs"
  by (induction xs) (auto simp: array_sort_def mset_sort_insert)

lemma set_sort_insert: "set (sort_insert cmp x ys) = insert x (set ys)"
  using mset_sort_insert [of cmp x ys] by (metis set_mset_add_mset_insert set_mset_mset)

lemma set_array_sort: "set (array_sort cmp xs) = set xs"
  using mset_array_sort [of cmp xs] by (metis set_mset_mset)

lemma compare_positive:
  "album_date b x = Some tx \<Longrightarrow> album_date b y = Some ty \<Longrightarrow>
     (case compare_albums b x y of Some v \<Rightarrow> 0 < v | None \<Rightarrow> False) \<longleftrightarrow> tx < ty"
  by (simp add: compare_albums_def)

lemma sorted_sort_insert:
  assumes "sorted_wrt (newer_or_equal b) ys"
    and "album_date b x \<noteq> None" and "\<forall>y \<in> set ys. album_date b y \<noteq> None"
  shows "sorted_wrt (newer_or_equal b) (sort_insert (compare_albums b) x ys)"
  using assms
proof (induction ys)
  case Nil
  then show ?case by simp
next
  case (Cons y ys)
  from Cons.prems obtain tx ty
    where tx: "album_date b x = Some tx" and ty: "album_date b y = Some ty"
    by auto
  show ?case
  proof (cases "tx < ty")
    case True
    then have ins: "sort_insert (compare_albums b) x (y # ys)
                      = y # sort_insert (compare_albums b) x ys"
      using compare_positive [OF tx ty] by simp
    have "sorted_wrt (newer_or_equal b) (sort_insert (compare_albums b) x ys)"
      using Cons by simp
    moreover have "newer_or_equal b y x"
      using True tx ty by (simp add: newer_or_equal_def)
    moreover have "\<forall>z \<in> set ys. newer_or_equal b y z"
      using Cons.prems(1) by simp
    ultimately show ?thesis
      unfolding ins by (simp add: set_sort_insert)
  next
    case False
    then have ins: "sort_insert (compare_albums b) x (y # ys) = x # y # ys"
      using compare_positive [OF tx ty] by simp
    have xy: "newer_or_equal b x y"
      using False tx ty by (simp add: newer_or_equal_def)
    have "newer_or_equal b x z" if "z \<in> set ys" for z
    proof -
      from that Cons.prems(1) have "newer_or_equal b y z" by simp
      with xy show ?thesis
        by (auto simp: newer_or_equal_def split: option.splits)
    qed
    with xy Cons.prems(1) show ?thesis
      unfolding ins by simp
  qed
qed

lemma sorted_array_sort:
  "\<forall>a \<in> set xs. album_date b a \<noteq> None \<Longrightarrow>
     sorted_wrt (newer_or_equal b) (array_sort (compare_albums b) xs)"
proof (induction xs)
  case Nil
  then show ?case by (simp add: array_sort_def)
next
  case (Cons x xs)
  have "sorted_wrt (newer_or_equal b) (array_sort (compare_albums b) xs)"
    using Cons by simp
  moreover have "album_date b x \<noteq> None"
    using Cons.prems by simp
  moreover have "\<forall>y \<in> set (array_sort (compare_albums b) xs). album_date b y \<noteq> None"
    using Cons.prems by (simp add: set_array_sort)
  ultimately have "sorted_wrt (newer_or_equal b)
                     (sort_insert (compare_albums b) x (array_sort (compare_albums b) xs))"
    by (rule sorted_sort_insert)
  then show ?case
    by (simp add: array_sort_def)
qed

lemma map_filter_id: "List.map_filter (\<lambda>x. x) (map f xs) = List.map_filter f xs"
  by (induction xs) (auto simp: List.map_filter_simps split: option.splits)

lemma load_album_None:
  "load_album b fetch albumName = None \<longleftrightarrow>
     (case fetch (''albums/'' @ template b (Some albumName) @ ''.json'') of
        Rejected m \<Rightarrow> True
      | Response status body \<Rightarrow>
          \<not> ok status \<or> (case body of Inl m \<Rightarrow> True | Inr v \<Rightarrow> v = JNull))"
  by (auto simp: load_album_def split: response.splits sum.splits json.splits)

lemma loadAlbums_sorted_loaded:
  assumes "fetch ''albums.json'' = Response status (Inr (JObj fs))"
    and "ok status"
    and "map_of fs ''albums'' = Some (JArr albumNames)"
  shows "loadAlbums b fetch
           = Inr (array_sort (compare_albums b) (List.map_filter (load_album b fetch) albumNames))"
  using assms by (simp add: loadAlbums_def get_property_def map_filter_id)

text \<open>
  Claim C4, as stated: when \<^verbatim>\<open>albums.json\<close> is absent, the listing yields an empty album
  list and no page-level failure.  On a server that answers 404, \<^verbatim>\<open>loadAlbums\<close> throws
  and the page shows the error panel.
\<close>

theorem missing_manifest_is_page_error:
  "loadAlbums example_browser fetch_not_found = Inl (HttpError 404)
   \<and> loadAlbums example_browser fetch_not_found \<noteq> Inr []
   \<and> initAlbumList example_browser fetch_not_found
       = ErrorPanel ''Failed to load albums: HTTP error! status: 404''
   \<and> initAlbumList example_browser fetch_not_found \<noteq> AlbumGrid []"
  by (simp add: loadAlbums_def initAlbumList_def fetch_not_found_def ok_def dec.simps
      digit_chars_def)

text \<open>
  Claim C4, amended: when the fetch of \<^verbatim>\<open>albums.json\<close> is answered with a status outside
  200 to 299, such as 404 for an absent manifest, \<^verbatim>\<open>loadAlbums\<close> throws the error
  "HTTP error! status: " followed by the status, and \<^verbatim>\<open>initAlbumList\<close> shows it in the
  error panel after "Failed to load albums: ", in place of the album grid.
\<close>

theorem loadAlbums_http_error:
  assumes "fetch ''albums.json'' = Response status body" and "\<not> ok status"
  shows "loadAlbums b fetch = Inl (HttpError status)
         \<and> initAlbumList b fetch
             = ErrorPanel (''Failed to load albums: HTTP error! status: '' @ dec status)"
  using assms by (simp add: loadAlbums_def initAlbumList_def)

theorem loadAlbums_http_error_witness:
  "fetch_not_found ''albums.json'' = Response 404 (Inl ''Unexpected token'') \<and> \<not> ok 404
   \<and> loadAlbums example_browser fetch_not_found = Inl (HttpError 404)
   \<and> initAlbumList example_browser fetch_not_found
       = ErrorPanel (''Failed to load albums: HTTP error! status: '' @ dec 404)"
proof -
  have 1: "fetch_not_found ''albums.json'' = Response 404 (Inl ''Unexpected token'')"
    by (simp add: fetch_not_found_def)
  have 2: "\<not> ok 404"
    by (simp add: ok_def)
  show ?thesis
    using loadAlbums_http_error
      [of fetch_not_found 404 "Inl ''Unexpected token''" example_browser] 1 2
    by simp
qed

text \<open>
  Claim C6: when the manifest loads, the listing never fails: it returns exactly the
  albums whose metadata loaded (an album is dropped when its fetch is rejected, is
  answered with a status outside 200 to 299, or has a body that is not valid JSON or is
  \<^verbatim>\<open>null\<close>), and when their dates are valid they stand newest first.  With three
  albums of which the second has invalid JSON, the two others are returned, the more
  recent first.
\<close>

theorem loadAlbums_partial_results:
  assumes "fetch ''albums.json'' = Response status (Inr (JObj fs))"
    and "ok status"
    and "map_of fs ''albums'' = Some (JArr albumNames)"
  shows "\<exists>albumsData. loadAlbums b fetch = Inr albumsData
           \<and> mset albumsData = mset (List.map_filter (load_album b fetch) albumNames)
           \<and> ((\<forall>a \<in> set albumsData. album_date b a \<noteq> None)
                \<longrightarrow> sorted_wrt (newer_or_equal b) albumsData)
           \<and> (\<forall>albumName. load_album b fetch albumName = None \<longleftrightarrow>
                 (case fetch (''albums/'' @ template b (Some albumName) @ ''.json'') of
                    Rejected m \<Rightarrow> True
                  | Response status body \<Rightarrow>
                      \<not> ok status \<or> (case body of Inl m \<Rightarrow> True | Inr v \<Rightarrow> v = JNull)))"
proof -
  let ?loaded = "List.map_filter (load_album b fetch) albumNames"
  have "loadAlbums b fetch = Inr (array_sort (compare_albums b) ?loaded)"
    using assms by (rule loadAlbums_sorted_loaded)
  moreover have "mset (array_sort (compare_albums b) ?loaded) = mset ?loaded"
    by (rule mset_array_sort)
  moreover have "(\<forall>a \<in> set (array_sort (compare_albums b) ?loaded). album_date b a \<noteq> None)
                   \<longrightarrow> sorted_wrt (newer_or_equal b) (array_sort (compare_albums b) ?loaded)"
    using sorted_array_sort [of ?loaded b] by (simp add: set_array_sort)
  ultimately show ?thesis
    using load_album_None [of b fetch] by blast
qed

theorem loadAlbums_partial_results_witness:
  "fetch_three ''albums.json''
     = Response 200 (Inr (JObj [(''albums'', JArr [JStr ''rush'', JStr ''formal'', JStr ''retreat''])]))
   \<and> ok 200
   \<and> loadAlbums example_browser fetch_three
       = Inr [JObj [(''name'', JStr ''Retreat''), (''date'', JStr ''2024-05-01T10:00:00Z''),
                    (''folderName'', JStr ''retreat'')],
              JObj [(''name'', JStr ''Rush''), (''date'', JStr ''2024-03-01T10:00:00Z''),
                    (''folderName'', JStr ''rush'')]]
   \<and> sorted_wrt (newer_or_equal example_browser)
        [JObj [(''name'', JStr ''Retreat''), (''date'', JStr ''2024-05-01T10:00:00Z''),
               (''folderName'', JStr ''retreat'')],
         JObj [(''name'', JStr ''Rush''), (''date'', JStr ''2024-03-01T10:00:00Z''),
               (''folderName'', JStr ''rush'')]]"
proof -
  have 1: "fetch_three ''albums.json''
     = Response 200 (Inr (JObj [(''albums'', JArr [JStr ''rush'', JStr ''formal'', JStr ''retreat''])]))"
    by (simp add: fetch_three_def)
  have 2: "ok 200"
    by (simp add: ok_def)
  have 3: "map_of [(''albums'', JArr [JStr ''rush'', JStr ''formal'', JStr ''retreat''])] ''albums''
             = Some (JArr [JStr ''rush'', JStr ''formal'', JStr ''retreat''])"
    by simp
  have 4: "loadAlbums example_browser fetch_three
       = Inr [JObj [(''name'', JStr ''Retreat''), (''date'', JStr ''2024-05-01T10:00:00Z''),
                    (''folderName'', JStr ''retreat'')],
              JObj [(''name'', JStr ''Rush''), (''date'', JStr ''2024-03-01T10:00:00Z''),
                    (''folderName'', JStr ''rush'')]]"
    by (simp add: loadAlbums_def fetch_three_def ok_def get_property_def load_album_def
        template_def List.map_filter_simps array_sort_def compare_albums_def album_date_def
        example_browser_def)
  have 5: "\<forall>a \<in> set [JObj [(''name'', JStr ''Retreat''), (''date'', JStr ''2024-05-01T10:00:00Z''),
                    (''folderName'', JStr ''retreat'')],
              JObj [(''name'', JStr ''Rush''), (''date'', JStr ''2024-03-01T10:00:00Z''),
                    (''folderName'', JStr ''rush'')]]. album_date example_browser a \<noteq> None"
    by (simp add: album_date_def get_property_def example_browser_def)
  from loadAlbums_partial_results
    [of fetch_three 200 "[(''albums'', JArr [JStr ''rush'', JStr ''formal'', JStr ''retreat''])]"
        "[JStr ''rush'', JStr ''formal'', JStr ''retreat'']" example_browser] 1 2 3 4 5
  have "sorted_wrt (newer_or_equal example_browser)
        [JObj [(''name'', JStr ''Retreat''), (''date'', JStr ''2024-05-01T10:00:00Z''),
               (''folderName'', JStr ''retreat'')],
         JObj [(''name'', JStr ''Rush''), (''date'', JStr ''2024-03-01T10:00:00Z''),
               (''folderName'', JStr ''rush'')]]"
    by auto
  with 1 2 4 show ?thesis by simp
qed

section \<open>Decoding photo records\<close>






section \<open>Generated names\<close>

lemma digit_nth_inj:
  "a < 10 \<Longrightarrow> b < 10 \<Longrightarrow> digit_chars ! a = digit_chars ! b \<Longrightarrow> a = b"
proof -
  have "distinct digit_chars" by (simp add: digit_chars_def)
  moreover have "length digit_chars = 10" by (simp add: digit_chars_def)
  ultimately show "a < 10 \<Longrightarrow> b < 10 \<Longrightarrow> digit_chars ! a = digit_chars ! b \<Longrightarrow> a = b"
    by (simp add: nth_eq_iff_index_eq)
qed

lemma dec_digits: "set (dec n) \<subseteq> set digit_chars"
proof (induction n rule: dec.induct)
  case (1 n)
  have len: "length digit_chars = 10" by (simp add: digit_chars_def)
  show ?case
  proof (cases "n < 10")
    case True
    then show ?thesis using len by (subst dec.simps) simp
  next
    case False
    have "n mod 10 < length digit_chars" using len by simp
    then have "digit_chars ! (n mod 10) \<in> set digit_chars" by (rule nth_mem)
    with False 1 show ?thesis by (subst dec.simps) simp
  qed
qed

lemma dec_nonempty: "dec n \<noteq> []"
  by (subst dec.simps) simp

lemma dec_inj: "dec m = dec n \<Longrightarrow> m = n"
proof (induction m arbitrary: n rule: dec.induct)
  case (1 m)
  show ?case
  proof (cases "m < 10")
    case True
    then have m: "dec m = [digit_chars ! m]" by (subst dec.simps) simp
    show ?thesis
    proof (cases "n < 10")
      case True
      then have "dec n = [digit_chars ! n]" by (subst dec.simps) simp
      with m 1(2) True \<open>m < 10\<close> show ?thesis by (simp add: digit_nth_inj)
    next
      case False
      then have "dec n = dec (n div 10) @ [digit_chars ! (n mod 10)]" by (subst dec.simps) simp
      with m 1(2) dec_nonempty [of "n div 10"] show ?thesis by simp
    qed
  next
    case False
    then have m: "dec m = dec (m div 10) @ [digit_chars ! (m mod 10)]" by (subst dec.simps) simp
    show ?thesis
    proof (cases "n < 10")
      case True
      then have "dec n = [digit_chars ! n]" by (subst dec.simps) simp
      with m 1(2) dec_nonempty [of "m div 10"] show ?thesis by simp
    next
      case n: False
      then have "dec n = dec (n div 10) @ [digit_chars ! (n mod 10)]" by (subst dec.simps) simp
      with m 1(2) have eq: "dec (m div 10) = dec (n div 10)"
        and d: "digit_chars ! (m mod 10) = digit_chars ! (n mod 10)" by simp_all
      from 1(1) [OF False eq] have "m div 10 = n div 10" .
      moreover from d have "m mod 10 = n mod 10" by (simp add: digit_nth_inj)
      ultimately show ?thesis by (metis div_mult_mod_eq)
    qed
  qed
qed

lemma takeWhile_until: "c \<notin> set xs \<Longrightarrow> takeWhile (\<lambda>x. x \<noteq> c) (xs @ c # ys) = xs"
  by (induction xs) auto

lemma split_unique:
  assumes "xs @ c # ys = xs' @ c # ys'" and "c \<notin> set xs" and "c \<notin> set xs'"
  shows "xs = xs' \<and> ys = ys'"
proof -
  have "takeWhile (\<lambda>x. x \<noteq> c) (xs @ c # ys) = xs"
    using assms(2) by (rule takeWhile_until)
  moreover have "takeWhile (\<lambda>x. x \<noteq> c) (xs' @ c # ys') = xs'"
    using assms(3) by (rule takeWhile_until)
  ultimately have "xs = xs'" using assms(1) by simp
  with assms(1) show ?thesis by simp
qed

lemma dot_not_digit: "CHR ''.'' \<notin> set (dec n)" and colon_not_digit: "CHR '':'' \<notin> set (dec n)"
  using dec_digits [of n] by (auto simp: digit_chars_def)

lemma generated_name_inj:
  "base_name s i @ ''.'' @ e = base_name s j @ ''.'' @ e' \<Longrightarrow> i = j \<and> e = e'"
proof -
  assume "base_name s i @ ''.'' @ e = base_name s j @ ''.'' @ e'"
  then have "dec i @ CHR ''.'' # e = dec j @ CHR ''.'' # e'"
    by (simp add: base_name_def)
  then have "dec i = dec j \<and> e = e'"
    using dot_not_digit [of i] dot_not_digit [of j] by (rule split_unique)
  then show ?thesis by (simp add: dec_inj)
qed

lemma update_fresh: "k \<notin> fst ` set al \<Longrightarrow> AList.update k v al = al @ [(k, v)]"
  by (induction al) auto


lemma lower_char_dot: "lower_char c = CHR ''.'' \<longleftrightarrow> c = CHR ''.''"
  by (auto simp: lower_char_def upper_chars_def lower_chars_def split: if_splits)

lemma lower_char_dash: "lower_char c = CHR ''-'' \<longleftrightarrow> c = CHR ''-''"
  by (auto simp: lower_char_def upper_chars_def lower_chars_def split: if_splits)

lemma map_lower_Cons:
  "map lower_char d = c # e \<Longrightarrow> \<exists>d0 ds. d = d0 # ds \<and> lower_char d0 = c \<and> map lower_char ds = e"
  by (cases d) simp_all

lemma iname_suffix_ext:
  assumes "iname_suffix (CHR ''.'' # e) n" and "CHR ''.'' \<notin> set e"
  shows "\<exists>stem ds. n = stem @ CHR ''.'' # ds \<and> CHR ''.'' \<notin> set ds \<and> map lower_char ds = e"
proof -
  define d where "d = drop (length n - length (CHR ''.'' # e)) n"
  define stem where "stem = take (length n - length (CHR ''.'' # e)) n"
  have n: "n = stem @ d"
    by (simp add: d_def stem_def)
  from assms(1) have "map lower_char d = CHR ''.'' # e"
    by (simp add: iname_suffix_def d_def)
  then obtain d0 ds where d: "d = d0 # ds" and d0: "lower_char d0 = CHR ''.''"
    and ds: "map lower_char ds = e"
    using map_lower_Cons by blast
  from d0 have "d0 = CHR ''.''"
    by (simp add: lower_char_dot)
  with n d have "n = stem @ CHR ''.'' # ds"
    by simp
  moreover have "CHR ''.'' \<notin> set ds"
  proof
    assume "CHR ''.'' \<in> set ds"
    then have "lower_char (CHR ''.'') \<in> set (map lower_char ds)" by simp
    moreover have "lower_char (CHR ''.'') = CHR ''.''" by (simp add: lower_char_dot)
    ultimately show False using ds assms(2) by simp
  qed
  ultimately show ?thesis using ds by blast
qed

lemma iname_suffix_in:
  assumes "iname_suffix (CHR ''.'' # e) n" and "CHR ''.'' \<notin> set e" and "e \<in> S"
  shows "\<exists>stem ds. n = stem @ CHR ''.'' # ds \<and> CHR ''.'' \<notin> set ds \<and> map lower_char ds \<in> S"
proof -
  from iname_suffix_ext [OF assms(1,2)] obtain stem ds
    where "n = stem @ CHR ''.'' # ds" and "CHR ''.'' \<notin> set ds" and "map lower_char ds = e"
    by blast
  with assms(3) show ?thesis by blast
qed

lemma photo_name_split:
  assumes "is_photo_name n"
  shows "\<exists>stem ds. n = stem @ CHR ''.'' # ds \<and> CHR ''.'' \<notin> set ds
           \<and> map lower_char ds \<in> photo_extensions"
proof -
  from assms consider "iname_suffix ''.jpg'' n" | "iname_suffix ''.jpeg'' n" | "iname_suffix ''.png'' n"
    unfolding is_photo_name_def by blast
  then show ?thesis
  proof cases
    case 1
    then show ?thesis by (rule iname_suffix_in) (simp_all add: photo_extensions_def)
  next
    case 2
    then show ?thesis by (rule iname_suffix_in) (simp_all add: photo_extensions_def)
  next
    case 3
    then show ?thesis by (rule iname_suffix_in) (simp_all add: photo_extensions_def)
  qed
qed

lemma after_last_split: "c \<notin> set ds \<Longrightarrow> after_last c (xs @ c # ds) = ds"
proof -
  assume "c \<notin> set ds"
  then have "c \<notin> set (rev ds)" by simp
  then have "takeWhile (\<lambda>x. x \<noteq> c) (rev ds @ c # rev xs) = rev ds"
    by (rule takeWhile_until)
  then show ?thesis by (simp add: after_last_def)
qed

lemma extension_props:
  "e \<in> photo_extensions \<Longrightarrow>
     e \<noteq> [] \<and> hd e \<noteq> CHR ''-'' \<and> command_subst (e @ [CHR 0x0A]) = e"
  by (auto simp: photo_extensions_def command_subst_def)

lemma lowered_extension:
  assumes "map lower_char ds \<in> photo_extensions"
  shows "command_subst (tr_upper_lower (echo ds)) = map lower_char ds"
proof -
  note props = extension_props [OF assms]
  from props have "ds \<noteq> []" by simp
  then obtain d0 dr where ds: "ds = d0 # dr" by (cases ds) simp_all
  from props have "lower_char d0 \<noteq> CHR ''-''" by (simp add: ds)
  then have "d0 \<noteq> CHR ''-''" by (simp add: lower_char_dash)
  then have "\<not> echo_option ds" by (simp add: echo_option_def ds)
  then have "tr_upper_lower (echo ds) = map lower_char ds @ [CHR 0x0A]"
    by (simp add: echo_def tr_upper_lower_def lower_char_newline)
  with props show ?thesis by simp
qed

lemma photo_extension:
  assumes "is_photo_name n"
  shows "command_subst (tr_upper_lower (echo (after_last (CHR ''.'') (path @ n))))
           = original_extension n"
    and "original_extension n \<in> photo_extensions"
proof -
  from photo_name_split [OF assms] obtain stem ds
    where n: "n = stem @ CHR ''.'' # ds" and nodot: "CHR ''.'' \<notin> set ds"
      and low: "map lower_char ds \<in> photo_extensions"
    by blast
  have "after_last (CHR ''.'') ((path @ stem) @ CHR ''.'' # ds) = ds"
    using nodot by (rule after_last_split)
  then have 1: "after_last (CHR ''.'') (path @ n) = ds"
    by (simp add: n)
  have "after_last (CHR ''.'') (stem @ CHR ''.'' # ds) = ds"
    using nodot by (rule after_last_split)
  then have 2: "original_extension n = map lower_char ds"
    by (simp add: n original_extension_def)
  show "command_subst (tr_upper_lower (echo (after_last (CHR ''.'') (path @ n))))
           = original_extension n"
    unfolding 1 2 using low by (rule lowered_extension)
  show "original_extension n \<in> photo_extensions"
    unfolding 2 by (rule low)
qed

section \<open>The per-photo loop\<close>

lemma not_photo_names:
  "\<not> is_photo_name ''low''" "\<not> is_photo_name ''full''" "\<not> is_photo_name ''data.json''"
  by (simp_all add: is_photo_name_def iname_suffix_def lower_char_def upper_chars_def
      lower_chars_def)

lemma map_of_fresh: "k \<notin> fst ` set al \<Longrightarrow> map_of al k = None"
  by (simp add: map_of_eq_None_iff)

lemma cp_file_fresh:
  assumes "map_of E src = Some (File c)" and "map_of E sub = Some (Dir F)"
    and "target \<notin> fst ` set F"
  shows "cp_file src sub target E = Some (AList.update sub (Dir (F @ [(target, File c)])) E)"
  using assms by (simp add: cp_file_def map_of_fresh update_fresh)

lemma ffmpeg_thumbnail_fresh:
  assumes "map_of E src = Some (File c)" and "map_of E sub = Some (Dir L)"
    and "ffmpeg t c = Some thumb" and "target \<notin> fst ` set L"
  shows "ffmpeg_thumbnail t src sub target E
           = Some (AList.update sub (Dir (L @ [(target, File thumb)])) E)"
  using assms by (simp add: ffmpeg_thumbnail_def map_of_fresh update_fresh)

lemma ffmpeg_thumbnail_fails:
  assumes "map_of E src = Some (File c)" and "ffmpeg t c = None"
  shows "ffmpeg_thumbnail t src sub target E = None"
  using assms by (simp add: ffmpeg_thumbnail_def split: option.splits node.splits)

lemma rm_file_file: "map_of E n = Some (File c) \<Longrightarrow> rm_file n E = Some (AList.delete n E)"
  by (simp add: rm_file_def)

lemma process_photos_step:
  assumes src: "map_of E n = Some (File c)" and photo: "is_photo_name n"
    and low: "map_of E ''low'' = Some (Dir L)" and full: "map_of E ''full'' = Some (Dir F)"
    and freshF: "base_name snake k @ ''.'' @ original_extension n \<notin> fst ` set F"
    and freshL: "base_name snake k @ ''.webp'' \<notin> fst ` set L"
  shows "process_photos t path snake ((path @ n) # rest) k pd E =
     (case ffmpeg t c of
        None \<Rightarrow> (False, pd @ [base_name snake k @ ''.webp:'' @ original_extension n],
                  AList.update ''full''
                    (Dir (F @ [(base_name snake k @ ''.'' @ original_extension n, File c)])) E)
      | Some thumb \<Rightarrow>
          process_photos t path snake rest (k + 1)
            (pd @ [base_name snake k @ ''.webp:'' @ original_extension n])
            (AList.delete n
              (AList.update ''low'' (Dir (L @ [(base_name snake k @ ''.webp'', File thumb)]))
                (AList.update ''full''
                  (Dir (F @ [(base_name snake k @ ''.'' @ original_extension n, File c)])) E))))"
proof -
  let ?orig = "base_name snake k @ ''.'' @ original_extension n"
  let ?webp = "base_name snake k @ ''.webp''"
  let ?E1 = "AList.update ''full'' (Dir (F @ [(?orig, File c)])) E"
  have n_low: "n \<noteq> ''low''" and n_full: "n \<noteq> ''full''"
    using photo not_photo_names by auto
  have ext: "command_subst (tr_upper_lower (echo (after_last (CHR ''.'') (path @ n))))
               = original_extension n"
    using photo by (rule photo_extension)
  have cp: "cp_file n ''full'' ?orig E = Some ?E1"
    using src full freshF by (rule cp_file_fresh)
  have src1: "map_of ?E1 n = Some (File c)"
    using src n_full by (simp add: AList.update_conv')
  have low1: "map_of ?E1 ''low'' = Some (Dir L)"
    using low by (simp add: AList.update_conv')
  show ?thesis
  proof (cases "ffmpeg t c")
    case None
    have "ffmpeg_thumbnail t n ''low'' ?webp ?E1 = None"
      using src1 None by (rule ffmpeg_thumbnail_fails)
    with cp None show ?thesis
      by (simp add: Let_def entry_name_def ext base_name_def)
  next
    case (Some thumb)
    let ?E2 = "AList.update ''low'' (Dir (L @ [(?webp, File thumb)])) ?E1"
    have ff: "ffmpeg_thumbnail t n ''low'' ?webp ?E1 = Some ?E2"
      using src1 low1 Some freshL by (rule ffmpeg_thumbnail_fresh)
    have "map_of ?E2 n = Some (File c)"
      using src1 n_low by (simp add: AList.update_conv')
    then have "rm_file n ?E2 = Some (AList.delete n ?E2)"
      by (rule rm_file_file)
    with cp ff Some show ?thesis
      by (simp add: Let_def entry_name_def ext base_name_def)
  qed
qed


lemma process_photos_run:
  assumes "process_photos t path snake (map (\<lambda>(n, c). path @ n) ps) k pd E = (True, pd', E')"
    and "distinct (map fst E)"
    and "distinct (map fst ps)"
    and "\<forall>(n, c) \<in> set ps. map_of E n = Some (File c) \<and> is_photo_name n"
    and "map_of E ''low'' = Some (Dir L)"
    and "map_of E ''full'' = Some (Dir F)"
    and "\<forall>i\<ge>k. \<forall>e. base_name snake i @ ''.'' @ e \<notin> fst ` set F"
    and "\<forall>i\<ge>k. \<forall>e. base_name snake i @ ''.'' @ e \<notin> fst ` set L"
  shows "pd' = pd @ photo_data_of (photo_records snake k ps)
       \<and> map_of E' ''low'' = Some (Dir (L @ low_entries t snake k ps))
       \<and> map_of E' ''full'' = Some (Dir (F @ full_entries snake k ps))
       \<and> (\<forall>(n, c) \<in> set ps. ffmpeg t c \<noteq> None)
       \<and> distinct (map fst E')
       \<and> (\<forall>n. n \<noteq> ''low'' \<longrightarrow> n \<noteq> ''full'' \<longrightarrow>
             map_of E' n = (if n \<in> fst ` set ps then None else map_of E n))"
  using assms
proof (induction ps arbitrary: k pd E L F)
  case Nil
  then show ?case
    by (simp add: photo_records_def photo_data_of_def low_entries_def full_entries_def
        enumerate_simps)
next
  case (Cons p rest)
  obtain n c where p: "p = (n, c)" by (cases p)
  let ?orig = "base_name snake k @ ''.'' @ original_extension n"
  let ?webp = "base_name snake k @ ''.webp''"
  let ?rec = "base_name snake k @ ''.webp:'' @ original_extension n"
  from Cons.prems(4) p have src: "map_of E n = Some (File c)" and photo: "is_photo_name n"
    by auto
  have n_low: "n \<noteq> ''low''" and n_full: "n \<noteq> ''full''"
    using photo not_photo_names by auto
  have freshF: "?orig \<notin> fst ` set F"
    using Cons.prems(7) by blast
  have "base_name snake k @ ''.'' @ ''webp'' \<notin> fst ` set L"
    using Cons.prems(8) by blast
  then have freshL: "?webp \<notin> fst ` set L"
    by simp
  note step = process_photos_step [OF src photo Cons.prems(5) Cons.prems(6) freshF freshL,
      of t path "map (\<lambda>(n, c). path @ n) rest" pd]
  from Cons.prems(1) p step obtain thumb where thumb: "ffmpeg t c = Some thumb"
    by (cases "ffmpeg t c") auto
  let ?F' = "F @ [(?orig, File c)]"
  let ?L' = "L @ [(?webp, File thumb)]"
  define E3 where "E3 = AList.delete n (AList.update ''low'' (Dir ?L') (AList.update ''full'' (Dir ?F') E))"
  have run: "process_photos t path snake (map (\<lambda>(n, c). path @ n) rest) (k + 1) (pd @ [?rec]) E3
               = (True, pd', E')"
    using Cons.prems(1) p step thumb by (simp add: E3_def)
  have d3: "distinct (map fst E3)"
    using Cons.prems(2) by (simp add: E3_def AList.distinct_delete AList.distinct_update)
  have drest: "distinct (map fst rest)"
    using Cons.prems(3) by simp
  have lookup3: "map_of E3 m = (if m = n then None else if m = ''low'' then Some (Dir ?L')
                     else if m = ''full'' then Some (Dir ?F') else map_of E m)" for m
    by (simp add: E3_def AList.delete_conv' AList.update_conv')
  have rest3: "\<forall>(m, c') \<in> set rest. map_of E3 m = Some (File c') \<and> is_photo_name m"
  proof (clarify, intro conjI)
    fix m c'
    assume mem: "(m, c') \<in> set rest"
    with Cons.prems(4) have E: "map_of E m = Some (File c')" and ph: "is_photo_name m"
      by auto
    from mem Cons.prems(3) p have "m \<noteq> n"
      by (auto simp: image_iff)
    moreover from ph have "m \<noteq> ''low''" "m \<noteq> ''full''"
      using not_photo_names by auto
    ultimately show "map_of E3 m = Some (File c')"
      using E by (simp add: lookup3)
    show "is_photo_name m" by (rule ph)
  qed
  have low3: "map_of E3 ''low'' = Some (Dir ?L')"
    using n_low n_low [symmetric] by (simp add: lookup3)
  have full3: "map_of E3 ''full'' = Some (Dir ?F')"
    using n_full n_full [symmetric] by (simp add: lookup3)
  have other: "base_name snake i @ ''.'' @ e \<noteq> base_name snake k @ ''.'' @ e'" if "k + 1 \<le> i" for i e e'
    using that generated_name_inj [of snake i e k e'] by auto
  have freshF': "\<forall>i\<ge>k + 1. \<forall>e. base_name snake i @ ''.'' @ e \<notin> fst ` set ?F'"
    using Cons.prems(7) other by auto
  have "base_name snake i @ ''.'' @ e \<noteq> ?webp" if "k + 1 \<le> i" for i e
    using other [OF that, of e "''webp''"] by simp
  then have freshL': "\<forall>i\<ge>k + 1. \<forall>e. base_name snake i @ ''.'' @ e \<notin> fst ` set ?L'"
    using Cons.prems(8) by auto
  note IH = Cons.IH [OF run d3 drest rest3 low3 full3 freshF' freshL']
  have recs: "photo_data_of (photo_records snake k (p # rest))
                = ?rec # photo_data_of (photo_records snake (k + 1) rest)"
    by (simp add: photo_records_def photo_data_of_def enumerate_simps p)
  have lows: "low_entries t snake k (p # rest) = (?webp, File thumb) # low_entries t snake (k + 1) rest"
    by (simp add: low_entries_def enumerate_simps p thumb)
  have fulls: "full_entries snake k (p # rest) = (?orig, File c) # full_entries snake (k + 1) rest"
    by (simp add: full_entries_def enumerate_simps p)
  have "pd' = pd @ photo_data_of (photo_records snake k (p # rest))"
    using IH by (simp add: recs)
  moreover have "map_of E' ''low'' = Some (Dir (L @ low_entries t snake k (p # rest)))"
    using IH by (simp add: lows)
  moreover have "map_of E' ''full'' = Some (Dir (F @ full_entries snake k (p # rest)))"
    using IH by (simp add: fulls)
  moreover have "\<forall>(n, c) \<in> set (p # rest). ffmpeg t c \<noteq> None"
    using IH thumb p by simp
  moreover have "distinct (map fst E')"
    using IH by simp
  moreover have "\<forall>m. m \<noteq> ''low'' \<longrightarrow> m \<noteq> ''full'' \<longrightarrow>
             map_of E' m = (if m \<in> fst ` set (p # rest) then None else map_of E m)"
  proof (intro allI impI)
    fix m
    assume m: "m \<noteq> ''low''" "m \<noteq> ''full''"
    with IH have "map_of E' m = (if m \<in> fst ` set rest then None else map_of E3 m)"
      by blast
    moreover have "map_of E3 m = (if m = n then None else map_of E m)"
      using m by (simp add: lookup3)
    ultimately show "map_of E' m = (if m \<in> fst ` set (p # rest) then None else map_of E m)"
      by (cases "m = n") (simp_all add: p)
  qed
  ultimately show ?case by blast
qed

lemma set_photo_entries:
  "set (photo_entries E) = {(n, c). (n, File c) \<in> set E \<and> is_photo_name n}"
  by (induction E rule: photo_entries.induct) auto

lemma fst_photo_entries_subset: "fst ` set (photo_entries E) \<subseteq> fst ` set E"
  by (force simp: set_photo_entries)

lemma distinct_photo_entries: "distinct (map fst E) \<Longrightarrow> distinct (map fst (photo_entries E))"
proof (induction E rule: photo_entries.induct)
  case 1
  then show ?case by simp
next
  case (2 name c es)
  then show ?case
    using fst_photo_entries_subset [of es] by auto
next
  case (3 name d es)
  then show ?case by simp
qed

lemma photo_entries_lookup:
  assumes "distinct (map fst E)" and "(n, c) \<in> set (photo_entries E)"
  shows "map_of E n = Some (File c) \<and> is_photo_name n"
proof -
  from assms(2) have "(n, File c) \<in> set E" and "is_photo_name n"
    by (simp_all add: set_photo_entries)
  with assms(1) show ?thesis
    by simp
qed

lemma no_newline_snake: "CHR 0x0A \<notin> set (to_snake_case s)"
  using to_snake_case_chars [of "CHR 0x0A" s] newline_not_kept by blast

lemma command_subst_id: "CHR 0x0A \<notin> set s \<Longrightarrow> command_subst s = s"
proof -
  assume "CHR 0x0A \<notin> set s"
  then have "dropWhile (\<lambda>c. c = CHR 0x0A) (rev s) = rev s"
    by (cases "rev s") (auto simp: dropWhile_eq_self_iff)
  then show ?thesis by (simp add: command_subst_def)
qed

lemma command_subst_snake: "command_subst (to_snake_case s) = to_snake_case s"
  using no_newline_snake by (rule command_subst_id)

section \<open>Publishing an album\<close>

lemma photo_records_nth:
  "i < length ps \<Longrightarrow>
     photo_records folder k ps ! i
       = (base_name folder (k + i) @ ''.webp'', original_extension (fst (ps ! i)))"
  by (simp add: photo_records_def nth_enumerate_eq split: prod.splits)

lemma length_photo_records [simp]: "length (photo_records folder k ps) = length ps"
  by (simp add: photo_records_def)

lemma length_photo_data_of [simp]: "length (photo_data_of records) = length records"
  by (simp add: photo_data_of_def)

lemma length_low_entries [simp]: "length (low_entries t folder k ps) = length ps"
  by (simp add: low_entries_def)

lemma length_full_entries [simp]: "length (full_entries folder k ps) = length ps"
  by (simp add: full_entries_def)

lemma colon_not_alnum: "\<not> (is_alnum (CHR '':'') \<or> CHR '':'' = CHR ''_'')"
  by (simp add: is_alnum_def upper_chars_def lower_chars_def digit_chars_def)

lemma colon_not_in_webp: "CHR '':'' \<notin> set (base_name (to_snake_case s) i @ ''.webp'')"
  using to_snake_case_chars [of "CHR '':''" s] colon_not_alnum colon_not_digit [of i]
  by (auto simp: base_name_def)

lemma before_first_colon:
  "CHR '':'' \<notin> set w \<Longrightarrow> before_first (CHR '':'') (w @ '':'' @ e) = w"
  using takeWhile_until [of "CHR '':''" w e] by (simp add: before_first_def)

lemma cover_photo:
  assumes "i < length ps"
  shows "before_first (CHR '':'') (photo_data_of (photo_records (to_snake_case s) k ps) ! i)
           = base_name (to_snake_case s) (k + i) @ ''.webp''"
proof -
  have "photo_data_of (photo_records (to_snake_case s) k ps) ! i
          = (base_name (to_snake_case s) (k + i) @ ''.webp'') @ '':'' @ original_extension (fst (ps ! i))"
    using assms by (simp add: photo_data_of_def photo_records_nth)
  then show ?thesis
    using before_first_colon [OF colon_not_in_webp] by simp
qed


lemma transform_album_completed:
  assumes raw: "raw_album E"
    and run: "transform_album t an pn ts r path E = (Completed, E')"
  shows "photo_entries E \<noteq> []
     \<and> map_of E' ''low'' = Some (Dir (low_entries t (to_snake_case an) 1 (photo_entries E)))
     \<and> map_of E' ''full'' = Some (Dir (full_entries (to_snake_case an) 1 (photo_entries E)))
     \<and> map_of E' ''data.json''
         = Some (File (data_json_text t an pn ts
              (base_name (to_snake_case an) (r mod length (photo_entries E) + 1) @ ''.webp'')
              (photo_data_of (photo_records (to_snake_case an) 1 (photo_entries E)))))
     \<and> (\<forall>(n, c) \<in> set (photo_entries E). ffmpeg t c \<noteq> None)
     \<and> distinct (map fst E')
     \<and> (\<forall>n. n \<noteq> ''low'' \<longrightarrow> n \<noteq> ''full'' \<longrightarrow> n \<noteq> ''data.json'' \<longrightarrow>
           map_of E' n = (if n \<in> fst ` set (photo_entries E) then None else map_of E n))"
proof -
  define ps where "ps = photo_entries E"
  define snake where "snake = to_snake_case an"
  define E1 where "E1 = AList.update ''low'' (Dir []) E"
  define E2 where "E2 = AList.update ''full'' (Dir []) E1"
  from raw have dE: "distinct (map fst E)" and nolow: "map_of E ''low'' = None"
    and nofull: "map_of E ''full'' = None"
    by (simp_all add: raw_album_def)
  have ne: "ps \<noteq> []"
  proof
    assume "ps = []"
    then have "transform_album t an pn ts r path E = (EmptyAlbum, E)"
      unfolding ps_def by (rule transform_album_empty)
    with run show False by simp
  qed
  have mk1: "mkdir_p ''low'' E = Some E1"
    using nolow by (simp add: mkdir_p_def E1_def)
  have "map_of E1 ''full'' = None"
    using nofull by (simp add: E1_def AList.update_conv')
  then have mk2: "mkdir_p ''full'' E1 = Some E2"
    by (simp add: mkdir_p_def E2_def)
  have lookup2: "map_of E2 m = (if m = ''full'' then Some (Dir []) else if m = ''low'' then Some (Dir [])
                   else map_of E m)" for m
    by (simp add: E2_def E1_def AList.update_conv')
  obtain ok pd E3
    where loop: "process_photos t path snake (map (\<lambda>(n, c). path @ n) ps) 1 [] E2 = (ok, pd, E3)"
    by (cases "process_photos t path snake (map (\<lambda>(n, c). path @ n) ps) 1 [] E2") blast
  have cs: "command_subst snake = snake"
    by (simp add: snake_def command_subst_snake)
  define doc where "doc = data_json_text t an pn ts
      (before_first (CHR '':'') (pd ! (r mod length pd))) pd"
  have unfolded: "transform_album t an pn ts r path E
      = (if ok then (case redirect_to ''data.json'' doc E3 of
                       None \<Rightarrow> (CommandFailed, E3) | Some E4 \<Rightarrow> (Completed, E4))
         else (CommandFailed, E3))"
    using ne loop cs
    by (simp add: transform_album_def Let_def find_photos_def mk1 mk2
        ps_def [symmetric] snake_def [symmetric] doc_def)
  have ok: "ok"
  proof (rule ccontr)
    assume "\<not> ok"
    with unfolded run show False by simp
  qed
  have redirect: "redirect_to ''data.json'' doc E3 = Some E'"
  proof (cases "redirect_to ''data.json'' doc E3")
    case None
    with unfolded run ok show ?thesis by simp
  next
    case (Some E4)
    with unfolded run ok show ?thesis by simp
  qed
  have d2: "distinct (map fst E2)"
    using dE by (simp add: E2_def E1_def AList.distinct_update)
  have dps: "distinct (map fst ps)"
    unfolding ps_def using dE by (rule distinct_photo_entries)
  have inE2: "\<forall>(n, c) \<in> set ps. map_of E2 n = Some (File c) \<and> is_photo_name n"
  proof (clarify, intro conjI)
    fix n c
    assume "(n, c) \<in> set ps"
    then have E: "map_of E n = Some (File c)" and ph: "is_photo_name n"
      using photo_entries_lookup [OF dE, of n c] by (simp_all add: ps_def)
    from ph have "n \<noteq> ''low''" "n \<noteq> ''full''"
      using not_photo_names by auto
    with E show "map_of E2 n = Some (File c)"
      by (simp add: lookup2)
    show "is_photo_name n" by (rule ph)
  qed
  have low2: "map_of E2 ''low'' = Some (Dir [])" and full2: "map_of E2 ''full'' = Some (Dir [])"
    by (simp_all add: lookup2)
  have fresh: "\<forall>i\<ge>1. \<forall>e. base_name snake i @ ''.'' @ e \<notin> fst ` set ([] :: dir)"
    by simp
  from loop ok have loop': "process_photos t path snake (map (\<lambda>(n, c). path @ n) ps) 1 [] E2
                              = (True, pd, E3)"
    by simp
  note inv = process_photos_run [OF loop' d2 dps inE2 low2 full2 fresh fresh]
  note inv_pd = inv [THEN conjunct1]
    and inv_low = inv [THEN conjunct2, THEN conjunct1]
    and inv_full = inv [THEN conjunct2, THEN conjunct2, THEN conjunct1]
    and inv_ffmpeg = inv [THEN conjunct2, THEN conjunct2, THEN conjunct2, THEN conjunct1]
    and inv_distinct = inv [THEN conjunct2, THEN conjunct2, THEN conjunct2, THEN conjunct2,
        THEN conjunct1]
    and inv_other = inv [THEN conjunct2, THEN conjunct2, THEN conjunct2, THEN conjunct2,
        THEN conjunct2]
  from inv_pd have pd: "pd = photo_data_of (photo_records snake 1 ps)"
    by simp
  have len: "length pd = length ps"
    by (simp add: pd photo_data_of_def)
  have "r mod length ps < length ps"
    using ne by simp
  then have cover: "before_first (CHR '':'') (pd ! (r mod length pd))
                      = base_name snake (r mod length ps + 1) @ ''.webp''"
    unfolding pd snake_def using cover_photo [of "r mod length ps" ps an 1] by simp
  have "\<not> is_dir (map_of E3 ''data.json'')"
    using redirect by (auto simp: redirect_to_dir)
  then have "redirect_to ''data.json'' doc E3 = Some (AList.update ''data.json'' (File doc) E3)"
    by (rule redirect_to_file)
  with redirect have E': "E' = AList.update ''data.json'' (File doc) E3"
    by simp
  have lookup': "map_of E' m = (if m = ''data.json'' then Some (File doc) else map_of E3 m)" for m
    by (simp add: E' AList.update_conv')
  have "ps \<noteq> []" by (rule ne)
  moreover have "map_of E' ''low'' = Some (Dir (low_entries t snake 1 ps))"
    using inv_low by (simp add: lookup')
  moreover have "map_of E' ''full'' = Some (Dir (full_entries snake 1 ps))"
    using inv_full by (simp add: lookup')
  moreover have "map_of E' ''data.json''
      = Some (File (data_json_text t an pn ts
           (base_name snake (r mod length ps + 1) @ ''.webp'')
           (photo_data_of (photo_records snake 1 ps))))"
    using cover by (simp add: lookup' doc_def pd)
  moreover have "\<forall>(n, c) \<in> set ps. ffmpeg t c \<noteq> None"
    by (rule inv_ffmpeg)
  moreover have "distinct (map fst E')"
    using inv_distinct by (simp add: E' AList.distinct_update)
  moreover have "\<forall>n. n \<noteq> ''low'' \<longrightarrow> n \<noteq> ''full'' \<longrightarrow> n \<noteq> ''data.json'' \<longrightarrow>
           map_of E' n = (if n \<in> fst ` set ps then None else map_of E n)"
  proof (intro allI impI)
    fix n
    assume n: "n \<noteq> ''low''" "n \<noteq> ''full''" "n \<noteq> ''data.json''"
    with inv_other have "map_of E3 n = (if n \<in> fst ` set ps then None else map_of E2 n)"
      by blast
    with n show "map_of E' n = (if n \<in> fst ` set ps then None else map_of E n)"
      by (simp add: lookup' lookup2)
  qed
  ultimately show ?thesis
    unfolding ps_def snake_def by blast
qed

lemma no_photos_left:
  assumes "distinct (map fst E)" and "distinct (map fst E')"
    and "\<forall>n. n \<noteq> ''low'' \<longrightarrow> n \<noteq> ''full'' \<longrightarrow> n \<noteq> ''data.json'' \<longrightarrow>
           map_of E' n = (if n \<in> fst ` set (photo_entries E) then None else map_of E n)"
  shows "photo_entries E' = []"
proof -
  have "\<not> is_photo_name n" if mem: "(n, File c) \<in> set E'" for n c
  proof
    assume ph: "is_photo_name n"
    then have "n \<noteq> ''low''" "n \<noteq> ''full''" "n \<noteq> ''data.json''"
      using not_photo_names by auto
    with assms(3) have eq: "map_of E' n = (if n \<in> fst ` set (photo_entries E) then None else map_of E n)"
      by blast
    from mem assms(2) have "map_of E' n = Some (File c)"
      by simp
    with eq have notin: "n \<notin> fst ` set (photo_entries E)" and "map_of E n = Some (File c)"
      by (auto split: if_splits)
    then have "(n, File c) \<in> set E"
      by (simp add: map_of_SomeD)
    with ph have "(n, c) \<in> set (photo_entries E)"
      by (simp add: set_photo_entries)
    with notin show False
      by force
  qed
  then show ?thesis
    by (auto simp: photo_entries_empty_iff)
qed

lemma mv_album_located:
  assumes "map_of A1 old_name = Some album" and "old_name \<noteq> new_name"
    and "mv_album old_name new_name A1 = Some A2"
    and "map_of A new_name = map_of A1 new_name"
  shows "album_after old_name new_name A A2 = Some album"
proof (cases "map_of A1 new_name")
  case None
  with assms show ?thesis
    by (auto simp: mv_album_def album_after_def AList.update_conv' split: if_splits)
next
  case (Some x)
  show ?thesis
  proof (cases x)
    case (File c)
    with Some assms show ?thesis
      by (auto simp: mv_album_def split: if_splits)
  next
    case (Dir D)
    with Some assms(1,3) have "A2 = AList.update new_name (Dir (AList.update old_name album D))
                                  (AList.delete old_name A1)"
      by (auto simp: mv_album_def split: if_splits option.splits node.splits)
    with Some Dir assms(2,4) show ?thesis
      by (simp add: album_after_def AList.update_conv')
  qed
qed

lemma process_album_completed:
  assumes "map_of A d = Some (Dir E)"
    and "process_album t an pn ts r d A = (Completed, A')"
  shows "\<exists>E'. transform_album t an pn ts r (ALBUMS_DIR @ ''/'' @ d @ ''/'') E = (Completed, E')
           \<and> album_after d (to_snake_case an) A A' = Some (Dir E')"
proof -
  obtain res E' where tr: "transform_album t an pn ts r (ALBUMS_DIR @ ''/'' @ d @ ''/'') E = (res, E')"
    by (cases "transform_album t an pn ts r (ALBUMS_DIR @ ''/'' @ d @ ''/'') E") blast
  have res: "res = Completed"
  proof (cases res)
    case Completed
    then show ?thesis .
  next
    case EmptyAlbum
    with assms tr show ?thesis by (simp add: process_album_def Let_def)
  next
    case CommandFailed
    with assms tr show ?thesis by (simp add: process_album_def Let_def)
  qed
  define A1 where "A1 = AList.update d (Dir E') A"
  have lookup1: "map_of A1 m = (if m = d then Some (Dir E') else map_of A m)" for m
    by (simp add: A1_def AList.update_conv')
  have "album_after d (to_snake_case an) A A' = Some (Dir E')"
  proof (cases "d = to_snake_case an")
    case True
    with assms tr res have "A' = A1"
      by (simp add: process_album_def Let_def command_subst_snake A1_def)
    with True show ?thesis
      by (simp add: album_after_def lookup1)
  next
    case False
    with assms tr res have "(case mv_album d (to_snake_case an) A1 of
                               None \<Rightarrow> (CommandFailed, A1) | Some A2 \<Rightarrow> (Completed, A2))
                            = (Completed, A')"
      unfolding A1_def by (simp add: process_album_def Let_def command_subst_snake)
    then have mv: "mv_album d (to_snake_case an) A1 = Some A'"
      by (cases "mv_album d (to_snake_case an) A1") simp_all
    have at_d: "map_of A1 d = Some (Dir E')"
      by (simp add: lookup1)
    have same: "map_of A (to_snake_case an) = map_of A1 (to_snake_case an)"
      using False by (simp add: lookup1)
    show ?thesis
      using at_d False mv same by (rule mv_album_located)
  qed
  with tr res show ?thesis by simp
qed

lemma full_entries_names:
  "name \<in> fst ` set (full_entries folder k ps) \<Longrightarrow> \<exists>i\<ge>k. \<exists>e. name = base_name folder i @ ''.'' @ e"
proof (induction ps arbitrary: k)
  case Nil
  then show ?case by (simp add: full_entries_def enumerate_simps)
next
  case (Cons p ps)
  obtain n c where p: "p = (n, c)" by (cases p)
  have unfold: "full_entries folder k (p # ps)
      = (base_name folder k @ ''.'' @ original_extension n, File c) # full_entries folder (Suc k) ps"
    by (simp add: full_entries_def enumerate_simps p)
  from Cons.prems consider "name = base_name folder k @ ''.'' @ original_extension n"
    | "name \<in> fst ` set (full_entries folder (Suc k) ps)"
    unfolding unfold by auto
  then show ?case
  proof cases
    case 1
    then show ?thesis by blast
  next
    case 2
    then obtain i e where "Suc k \<le> i" "name = base_name folder i @ ''.'' @ e"
      using Cons.IH by blast
    then show ?thesis by (metis Suc_leD)
  qed
qed

lemma distinct_full_entries: "distinct (map fst (full_entries folder k ps))"
proof (induction ps arbitrary: k)
  case Nil
  then show ?case by (simp add: full_entries_def enumerate_simps)
next
  case (Cons p ps)
  obtain n c where p: "p = (n, c)" by (cases p)
  have unfold: "full_entries folder k (p # ps)
      = (base_name folder k @ ''.'' @ original_extension n, File c) # full_entries folder (Suc k) ps"
    by (simp add: full_entries_def enumerate_simps p)
  have "base_name folder k @ ''.'' @ original_extension n \<notin> fst ` set (full_entries folder (Suc k) ps)"
  proof
    assume "base_name folder k @ ''.'' @ original_extension n \<in> fst ` set (full_entries folder (Suc k) ps)"
    then obtain i e where "Suc k \<le> i"
      and "base_name folder k @ ''.'' @ original_extension n = base_name folder i @ ''.'' @ e"
      using full_entries_names by blast
    then show False
      using generated_name_inj [of folder k "original_extension n" i e] by simp
  qed
  with Cons.IH [of "Suc k"] show ?case
    unfolding unfold by simp
qed






subsection \<open>The text of the metadata file\<close>














section \<open>Resetting\<close>

lemma mv_into_root_done:
  assumes "mv_into_root name E = (True, E1)" and "map_of E ''full'' = Some (Dir F)"
  shows "\<exists>x. map_of F name = Some x \<and> can_replace x (map_of E name) \<and> name \<noteq> ''full''
           \<and> E1 = AList.update name x (AList.update ''full'' (Dir (AList.delete name F)) E)"
proof -
  from assms obtain x where x: "map_of F name = Some x"
    by (cases "map_of F name") (auto simp: mv_into_root_def)
  with assms have can: "can_replace x (map_of E name)"
    and E1: "E1 = AList.update name x (AList.update ''full'' (Dir (AList.delete name F)) E)"
    by (auto simp: mv_into_root_def split: if_splits)
  have "name \<noteq> ''full''"
  proof
    assume "name = ''full''"
    with can assms(2) have "can_replace x (Some (Dir F))" by simp
    moreover from x have "F \<noteq> []" by auto
    ultimately show False by (cases x) simp_all
  qed
  with x can E1 show ?thesis by blast
qed

lemma mv_all_done:
  assumes "mv_all names E = (True, E1)" and "map_of E ''full'' = Some (Dir F)"
    and "distinct (map fst E)"
  shows "distinct (map fst E1)
       \<and> (\<forall>n. n \<noteq> ''full'' \<longrightarrow> map_of E1 n = (if n \<in> set names then map_of F n else map_of E n))
       \<and> (\<forall>n \<in> set names. \<exists>x. map_of F n = Some x \<and> can_replace x (map_of E n))
       \<and> ''full'' \<notin> set names"
  using assms
proof (induction names arbitrary: E F)
  case Nil
  then show ?case by simp
next
  case (Cons name names)
  obtain ok Ea where step: "mv_into_root name E = (ok, Ea)"
    by (cases "mv_into_root name E") blast
  obtain ok' Eb where rest: "mv_all names Ea = (ok', Eb)"
    by (cases "mv_all names Ea") blast
  from Cons.prems(1) step rest have ok: "ok" and ok': "ok'" and Eb: "Eb = E1"
    by simp_all
  from step ok have step': "mv_into_root name E = (True, Ea)"
    by simp
  from mv_into_root_done [OF step' Cons.prems(2)] obtain x where x: "map_of F name = Some x"
    and can: "can_replace x (map_of E name)" and nf: "name \<noteq> ''full''"
    and Ea: "Ea = AList.update name x (AList.update ''full'' (Dir (AList.delete name F)) E)"
    by blast
  define F' where "F' = AList.delete name F"
  have lookupa: "map_of Ea m = (if m = name then Some x else if m = ''full'' then Some (Dir F')
                    else map_of E m)" for m
    by (simp add: Ea F'_def AList.update_conv')
  have fulla: "map_of Ea ''full'' = Some (Dir F')"
    using nf nf [symmetric] by (simp add: lookupa)
  have da: "distinct (map fst Ea)"
    using Cons.prems(3) by (simp add: Ea AList.distinct_update)
  from rest ok' Eb have rest': "mv_all names Ea = (True, E1)"
    by simp
  note IH = Cons.IH [OF rest' fulla da]
  note IH_distinct = IH [THEN conjunct1]
    and IH_lookup = IH [THEN conjunct2, THEN conjunct1]
    and IH_moved = IH [THEN conjunct2, THEN conjunct2, THEN conjunct1]
    and IH_full = IH [THEN conjunct2, THEN conjunct2, THEN conjunct2]
  have lookupF': "map_of F' m = (if m = name then None else map_of F m)" for m
    by (simp add: F'_def AList.delete_conv')
  have fresh: "name \<notin> set names"
  proof
    assume "name \<in> set names"
    with IH_moved obtain y where "map_of F' name = Some y" by blast
    then show False by (simp add: lookupF')
  qed
  have "\<forall>n. n \<noteq> ''full'' \<longrightarrow>
          map_of E1 n = (if n \<in> set (name # names) then map_of F n else map_of E n)"
  proof (intro allI impI)
    fix n
    assume n: "n \<noteq> ''full''"
    with IH_lookup have eq: "map_of E1 n = (if n \<in> set names then map_of F' n else map_of Ea n)"
      by blast
    show "map_of E1 n = (if n \<in> set (name # names) then map_of F n else map_of E n)"
    proof (cases "n = name")
      case True
      with fresh eq x show ?thesis by (simp add: lookupa)
    next
      case False
      with eq n show ?thesis by (simp add: lookupa lookupF')
    qed
  qed
  moreover have "\<forall>n \<in> set (name # names). \<exists>y. map_of F n = Some y \<and> can_replace y (map_of E n)"
  proof
    fix n
    assume "n \<in> set (name # names)"
    then consider "n = name" | "n \<in> set names" "n \<noteq> name"
      by auto
    then show "\<exists>y. map_of F n = Some y \<and> can_replace y (map_of E n)"
    proof cases
      case 1
      with x can show ?thesis by simp
    next
      case 2
      with IH_moved obtain y where y: "map_of F' n = Some y" "can_replace y (map_of Ea n)"
        by blast
      from 2 IH_full have "n \<noteq> ''full''" by auto
      with 2 y show ?thesis by (simp add: lookupa lookupF')
    qed
  qed
  moreover have "''full'' \<notin> set (name # names)"
    using IH_full nf by auto
  ultimately show ?case
    using IH_distinct by blast
qed


lemma set_glob_star: "set (glob_star d) = {name \<in> fst ` set d. \<not> hidden name}"
  by (auto simp: glob_star_def)

lemma can_replace_file:
  "can_replace x (Some (File c)) \<Longrightarrow> is_file (Some x)"
  by (cases x) simp_all

lemma is_file_Some: "is_file v \<longleftrightarrow> (\<exists>c. v = Some (File c))"
  by (cases v rule: is_file.cases) simp_all

lemma reset_files_done:
  assumes run: "reset_files E = (True, E')" and full: "map_of E ''full'' = Some (Dir F)"
    and dE: "distinct (map fst E)" and meta: "is_file (map_of E ''data.json'')"
  shows "distinct (map fst E')
       \<and> (\<forall>n. map_of E' n =
             (if n = ''full'' \<or> n = ''data.json'' then None
              else if n \<in> set (glob_star F)
                then (if n = ''low'' \<and> is_dir (map_of F ''low'') then None else map_of F n)
              else if n = ''low'' \<and> is_dir (map_of E ''low'') then None else map_of E n))
       \<and> glob_star F \<noteq> []
       \<and> (\<forall>n \<in> set (glob_star F). \<exists>x. map_of F n = Some x \<and> can_replace x (map_of E n))"
proof -
  obtain ok E1 where mv: "mv_full_to_root E = (ok, E1)"
    by (cases "mv_full_to_root E") blast
  have ok: "ok"
  proof (rule ccontr)
    assume "\<not> ok"
    with run mv show False by (simp add: reset_files_def)
  qed
  have ne: "glob_star F \<noteq> []"
  proof
    assume "glob_star F = []"
    with mv full ok show False by (simp add: mv_full_to_root_def)
  qed
  with mv full ok have all: "mv_all (glob_star F) E = (True, E1)"
    by (simp add: mv_full_to_root_def)
  note moved = mv_all_done [OF all full dE]
  note m_distinct = moved [THEN conjunct1]
    and m_lookup = moved [THEN conjunct2, THEN conjunct1]
    and m_can = moved [THEN conjunct2, THEN conjunct2, THEN conjunct1]
    and m_full = moved [THEN conjunct2, THEN conjunct2, THEN conjunct2]
  define M where "M n = (if n \<in> set (glob_star F) then map_of F n else map_of E n)" for n
  have lookup1: "map_of E1 n = M n" if "n \<noteq> ''full''" for n
    using that m_lookup by (simp add: M_def)
  define E2 where "E2 = (if is_dir (map_of E1 ''low'') then AList.delete ''low'' E1 else E1)"
  define E3 where "E3 = AList.delete ''full'' E2"
  have E': "E' = (if is_file (map_of E3 ''data.json'') then AList.delete ''data.json'' E3 else E3)"
    using run mv ok by (auto simp: reset_files_def Let_def E2_def E3_def)
  have lookup3: "map_of E3 n = (if n = ''full'' then None
                   else if n = ''low'' \<and> is_dir (M ''low'') then None else M n)" for n
    by (simp add: E3_def E2_def AList.delete_conv' lookup1)
  have "is_file (M ''data.json'')"
  proof (cases "''data.json'' \<in> set (glob_star F)")
    case True
    with m_can obtain x where "map_of F ''data.json'' = Some x"
      and "can_replace x (map_of E ''data.json'')"
      by blast
    moreover from meta obtain c where "map_of E ''data.json'' = Some (File c)"
      by (auto simp: is_file_Some)
    ultimately show ?thesis
      using True can_replace_file [of x c] by (simp add: M_def)
  next
    case False
    with meta show ?thesis by (simp add: M_def)
  qed
  then have "is_file (map_of E3 ''data.json'')"
    by (simp add: lookup3)
  with E' have E'': "E' = AList.delete ''data.json'' E3"
    by simp
  have "distinct (map fst E')"
    using m_distinct by (simp add: E'' E3_def E2_def AList.distinct_delete)
  moreover have "\<forall>n. map_of E' n =
             (if n = ''full'' \<or> n = ''data.json'' then None
              else if n \<in> set (glob_star F)
                then (if n = ''low'' \<and> is_dir (map_of F ''low'') then None else map_of F n)
              else if n = ''low'' \<and> is_dir (map_of E ''low'') then None else map_of E n)"
    by (simp add: E'' AList.delete_conv' lookup3 M_def)
  ultimately show ?thesis
    using ne m_can by blast
qed

lemma mv_all_succeeds:
  assumes "distinct names" and "map_of E ''full'' = Some (Dir F)"
    and "\<forall>n \<in> set names. \<exists>x. map_of F n = Some x \<and> can_replace x (map_of E n)"
  shows "fst (mv_all names E)"
  using assms
proof (induction names arbitrary: E F)
  case Nil
  then show ?case by simp
next
  case (Cons name names)
  from Cons.prems(3) obtain x where x: "map_of F name = Some x"
    and can: "can_replace x (map_of E name)"
    by auto
  define F' where "F' = AList.delete name F"
  define Ea where "Ea = AList.update name x (AList.update ''full'' (Dir F') E)"
  have step: "mv_into_root name E = (True, Ea)"
    using Cons.prems(2) x can by (simp add: mv_into_root_def Ea_def F'_def)
  from mv_into_root_done [OF step Cons.prems(2)] have nf: "name \<noteq> ''full''"
    by blast
  have lookupa: "map_of Ea m = (if m = name then Some x else if m = ''full'' then Some (Dir F')
                    else map_of E m)" for m
    by (simp add: Ea_def AList.update_conv')
  have fulla: "map_of Ea ''full'' = Some (Dir F')"
    using nf nf [symmetric] by (simp add: lookupa)
  have "\<forall>n \<in> set names. \<exists>y. map_of F' n = Some y \<and> can_replace y (map_of Ea n)"
  proof
    fix n
    assume n: "n \<in> set names"
    with Cons.prems(1) have nn: "n \<noteq> name" by auto
    from n Cons.prems(3) obtain y where y: "map_of F n = Some y" "can_replace y (map_of E n)"
      by auto
    have "n \<noteq> ''full''"
    proof
      assume "n = ''full''"
      with y Cons.prems(2) have "can_replace y (Some (Dir F))" by simp
      moreover from y have "F \<noteq> []" by auto
      ultimately show False by (cases y) simp_all
    qed
    with nn y show "\<exists>y. map_of F' n = Some y \<and> can_replace y (map_of Ea n)"
      by (simp add: lookupa F'_def AList.delete_conv')
  qed
  moreover have "distinct names"
    using Cons.prems(1) by simp
  ultimately have "fst (mv_all names Ea)"
    using fulla Cons.IH by blast
  with step show ?case
    by (simp add: split_def)
qed

lemma distinct_glob_star: "distinct (map fst d) \<Longrightarrow> distinct (glob_star d)"
  by (simp add: glob_star_def distinct_map_filter)

lemma movable_iff:
  "movable F E \<longleftrightarrow> glob_star F \<noteq> []
     \<and> (\<forall>n \<in> set (glob_star F). \<exists>x. map_of F n = Some x \<and> can_replace x (map_of E n))"
  by (auto simp: movable_def list_all_iff split: option.splits)

lemma reset_files_iff:
  assumes "map_of E ''full'' = Some (Dir F)" and "distinct (map fst E)"
    and "distinct (map fst F)" and "is_file (map_of E ''data.json'')"
  shows "fst (reset_files E) \<longleftrightarrow> movable F E"
proof
  assume "fst (reset_files E)"
  then have "reset_files E = (True, snd (reset_files E))"
    by (simp add: prod_eq_iff)
  from reset_files_done [OF this assms(1,2,4)] show "movable F E"
    by (simp add: movable_iff)
next
  assume mov: "movable F E"
  then have ne: "glob_star F \<noteq> []"
    and can: "\<forall>n \<in> set (glob_star F). \<exists>x. map_of F n = Some x \<and> can_replace x (map_of E n)"
    by (simp_all add: movable_iff)
  have "fst (mv_all (glob_star F) E)"
    using distinct_glob_star [OF assms(3)] assms(1) can by (rule mv_all_succeeds)
  then have "fst (mv_full_to_root E)"
    using assms(1) ne by (simp add: mv_full_to_root_def)
  then show "fst (reset_files E)"
    by (cases "mv_full_to_root E") (auto simp: reset_files_def Let_def)
qed

lemma reset_album_confirmed:
  assumes "map_of A album_name = Some (Dir E)" and "is_file (map_of E ''data.json'')"
    and "map_of E ''full'' = Some (Dir F)" and "confirm = ''y'' \<or> confirm = ''Y''"
  shows "reset_album confirm album_name A
           = ((if fst (reset_files E) then ResetDone else MoveFailed)
                (wc_l (find_type_f (ALBUMS_DIR @ ''/'' @ album_name @ ''/full'') (Dir F))),
              AList.update album_name (Dir (snd (reset_files E))) A)"
proof (cases "reset_files E")
  case (Pair ok E')
  with assms show ?thesis
    by (cases ok) (auto simp: reset_album_def Let_def)
qed

lemma iname_suffix_append:
  "map lower_char suffix = suffix \<Longrightarrow> iname_suffix suffix (stem @ suffix)"
  by (simp add: iname_suffix_def)

lemma generated_is_photo_name:
  assumes "e \<in> photo_extensions"
  shows "is_photo_name (b @ ''.'' @ e)"
proof -
  have low: "map lower_char ''.jpg'' = ''.jpg''" "map lower_char ''.jpeg'' = ''.jpeg''"
    "map lower_char ''.png'' = ''.png''"
    by (simp_all add: lower_char_def upper_chars_def lower_chars_def)
  from assms consider "e = ''jpg''" | "e = ''jpeg''" | "e = ''png''"
    unfolding photo_extensions_def by blast
  then show ?thesis
  proof cases
    case 1
    have "iname_suffix ''.jpg'' (b @ ''.jpg'')"
      using low(1) by (rule iname_suffix_append)
    with 1 show ?thesis by (simp add: is_photo_name_def)
  next
    case 2
    have "iname_suffix ''.jpeg'' (b @ ''.jpeg'')"
      using low(2) by (rule iname_suffix_append)
    with 2 show ?thesis by (simp add: is_photo_name_def)
  next
    case 3
    have "iname_suffix ''.png'' (b @ ''.png'')"
      using low(3) by (rule iname_suffix_append)
    with 3 show ?thesis by (simp add: is_photo_name_def)
  qed
qed

lemma dot_not_kept: "\<not> (is_alnum (CHR ''.'') \<or> CHR ''.'' = CHR ''_'')"
  by (simp add: is_alnum_def upper_chars_def lower_chars_def digit_chars_def)

lemma generated_not_hidden: "\<not> hidden (base_name (to_snake_case s) i @ rest)"
proof (cases "to_snake_case s")
  case Nil
  then show ?thesis by (simp add: base_name_def)
next
  case (Cons c cs)
  then have "c \<in> set (to_snake_case s)" by simp
  then have "c \<noteq> CHR ''.''"
    using to_snake_case_chars [of c s] dot_not_kept by auto
  with Cons show ?thesis by (simp add: base_name_def)
qed

lemma full_entries_restored:
  "full_entries folder 1 ps = map (\<lambda>(name, c). (name, File c)) (restored_photos folder ps)"
  by (simp add: full_entries_def restored_photos_def split_def)

lemma map_snd_restored: "map snd (restored_photos folder ps) = map snd ps"
proof -
  have "map snd (restored_photos folder ps) = map (snd \<circ> snd) (List.enumerate 1 ps)"
    by (simp add: restored_photos_def split_def comp_def)
  also have "\<dots> = map snd (map snd (List.enumerate 1 ps))"
    by (simp only: map_map)
  also have "map snd (List.enumerate 1 ps) = ps"
    by (rule map_snd_enumerate)
  finally show ?thesis .
qed

lemma restored_names:
  assumes "(name, c) \<in> set (restored_photos (to_snake_case s) ps)"
    and "\<forall>(n, c) \<in> set ps. is_photo_name n"
  shows "is_photo_name name \<and> \<not> hidden name"
proof -
  from assms(1) obtain i n where mem: "(i, (n, c)) \<in> set (List.enumerate 1 ps)"
    and name: "name = base_name (to_snake_case s) i @ ''.'' @ original_extension n"
    by (auto simp: restored_photos_def)
  have "snd ` set (List.enumerate 1 ps) = set ps"
    by (metis map_snd_enumerate set_map)
  moreover from mem have "snd (i, (n, c)) \<in> snd ` set (List.enumerate 1 ps)"
    by (rule imageI)
  ultimately have "(n, c) \<in> set ps"
    by simp
  with assms(2) have "is_photo_name n" by auto
  then have "original_extension n \<in> photo_extensions"
    by (rule photo_extension)
  then have "is_photo_name name"
    unfolding name by (rule generated_is_photo_name)
  moreover have "\<not> hidden name"
    unfolding name by (rule generated_not_hidden)
  ultimately show ?thesis by simp
qed

lemma can_replace_metadata:
  "can_replace x (Some (File c)) = can_replace x (Some (File c'))"
  by (cases x) simp_all

lemma movable_metadata:
  assumes "map_of E ''data.json'' = Some (File metadata)"
  shows "movable F (AList.update ''data.json'' (File other) E) = movable F E"
proof -
  have "can_replace x (map_of (AList.update ''data.json'' (File other) E) n)
          = can_replace x (map_of E n)" for x n
    using assms can_replace_metadata [of x other metadata]
    by (simp add: AList.update_conv')
  then show ?thesis
    by (simp add: movable_iff)
qed

text \<open>
  Claim C10: the files that reset moves back, and the count it reports, are exactly the
  files present in \<^verbatim>\<open>full/\<close> at invocation.  The script counts with
  \<^verbatim>\<open>find full -type f | wc -l\<close> and moves with \<^verbatim>\<open>mv full/*\<close>, and the two disagree
  on a file whose name begins with a dot: with a photo and such a file in \<^verbatim>\<open>full/\<close>,
  the run completes, reports two photos, has moved one, and has deleted the other with
  the directory.
\<close>

theorem reset_skips_hidden_files:
  "reset_album ''y'' ''rush'' example_reset_albums
     = (ResetDone 2, [(''rush'', Dir [(''rush_1.jpg'', File ''abc'')])])
   \<and> \<not> spec_restores_full [(''.DS_Store'', File ''x''), (''rush_1.jpg'', File ''abc'')]
         [(''rush_1.jpg'', File ''abc'')] 2"
  by code_simp

text \<open>
  Reset never reads the contents of \<^verbatim>\<open>data.json\<close>.  For an album with metadata and a
  \<^verbatim>\<open>full/\<close> directory, once the operator confirms, the outcome, the count and the
  album left behind are fixed by the entries of \<^verbatim>\<open>full/\<close> and of the album root:
  the count is the number of lines that \<^verbatim>\<open>find full -type f\<close> prints, the run
  completes exactly when \<^verbatim>\<open>full/*\<close> has a match and every match can be moved into
  the album root, and then the album root holds the matches over what it held before,
  without \<^verbatim>\<open>full\<close>, \<^verbatim>\<open>data.json\<close> and the directory \<^verbatim>\<open>low\<close>.  Replacing the
  metadata by any other text changes neither the outcome nor the count.
\<close>

theorem reset_album_moves_full_entries:
  assumes "map_of A album_name = Some (Dir E)" and "distinct (map fst E)"
    and "map_of E ''data.json'' = Some (File metadata)"
    and "map_of E ''full'' = Some (Dir F)" and "distinct (map fst F)"
    and "confirm = ''y'' \<or> confirm = ''Y''"
  shows "\<exists>E'. reset_album confirm album_name A
                = ((if movable F E then ResetDone else MoveFailed)
                     (wc_l (find_type_f (ALBUMS_DIR @ ''/'' @ album_name @ ''/full'') (Dir F))),
                   AList.update album_name (Dir E') A)
          \<and> (movable F E \<longrightarrow>
               (\<forall>n. map_of E' n =
                  (if n = ''full'' \<or> n = ''data.json'' then None
                   else if n \<in> set (glob_star F)
                     then (if n = ''low'' \<and> is_dir (map_of F ''low'') then None else map_of F n)
                   else if n = ''low'' \<and> is_dir (map_of E ''low'') then None else map_of E n)))
          \<and> set (glob_star F) = {n \<in> fst ` set F. \<not> hidden n}
          \<and> (\<forall>other.
                fst (reset_album confirm album_name
                       (AList.update album_name
                          (Dir (AList.update ''data.json'' (File other) E)) A))
                  = fst (reset_album confirm album_name A))"
proof -
  have meta: "is_file (map_of E ''data.json'')"
    using assms(3) by simp
  note unfolded = reset_album_confirmed [OF assms(1) meta assms(4) assms(6)]
  have iff: "fst (reset_files E) \<longleftrightarrow> movable F E"
    using assms(4) assms(2) assms(5) meta by (rule reset_files_iff)
  define E' where "E' = snd (reset_files E)"
  have 1: "reset_album confirm album_name A
             = ((if movable F E then ResetDone else MoveFailed)
                  (wc_l (find_type_f (ALBUMS_DIR @ ''/'' @ album_name @ ''/full'') (Dir F))),
                AList.update album_name (Dir E') A)"
    unfolding unfolded iff E'_def ..
  have 2: "\<forall>n. map_of E' n =
                  (if n = ''full'' \<or> n = ''data.json'' then None
                   else if n \<in> set (glob_star F)
                     then (if n = ''low'' \<and> is_dir (map_of F ''low'') then None else map_of F n)
                   else if n = ''low'' \<and> is_dir (map_of E ''low'') then None else map_of E n)"
    if "movable F E"
  proof -
    from that iff have "reset_files E = (True, E')"
      by (simp add: E'_def prod_eq_iff)
    from reset_files_done [OF this assms(4) assms(2) meta] show ?thesis
      by blast
  qed
  have 3: "fst (reset_album confirm album_name
                       (AList.update album_name
                          (Dir (AList.update ''data.json'' (File other) E)) A))
                  = fst (reset_album confirm album_name A)" for other
  proof -
    let ?E2 = "AList.update ''data.json'' (File other) E"
    let ?A2 = "AList.update album_name (Dir ?E2) A"
    have a: "map_of ?A2 album_name = Some (Dir ?E2)"
      by (simp add: AList.update_conv')
    have m: "is_file (map_of ?E2 ''data.json'')"
      by (simp add: AList.update_conv')
    have f: "map_of ?E2 ''full'' = Some (Dir F)"
      using assms(4) by (simp add: AList.update_conv')
    have d: "distinct (map fst ?E2)"
      using assms(2) by (simp add: AList.distinct_update)
    have "fst (reset_files ?E2) \<longleftrightarrow> movable F ?E2"
      using f d assms(5) m by (rule reset_files_iff)
    then have "fst (reset_files ?E2) \<longleftrightarrow> fst (reset_files E)"
      using iff movable_metadata [OF assms(3)] by simp
    then show ?thesis
      unfolding unfolded reset_album_confirmed [OF a m f assms(6)] by simp
  qed
  from 1 2 3 set_glob_star [of F] show ?thesis
    by blast
qed

theorem reset_album_moves_full_entries_witness:
  "map_of example_reset_albums ''rush'' = Some (Dir example_reset_album)
   \<and> distinct (map fst example_reset_album)
   \<and> map_of example_reset_album ''data.json'' = Some (File ''{}'')
   \<and> map_of example_reset_album ''full''
       = Some (Dir [(''.DS_Store'', File ''x''), (''rush_1.jpg'', File ''abc'')])
   \<and> fst (reset_album ''y'' ''rush''
            (AList.update ''rush''
               (Dir (AList.update ''data.json'' (File ''[1, 2, 3]'') example_reset_album))
               example_reset_albums))
       = fst (reset_album ''y'' ''rush'' example_reset_albums)"
proof -
  have h1: "map_of example_reset_albums ''rush'' = Some (Dir example_reset_album)"
    by (simp add: example_reset_albums_def)
  have h2: "distinct (map fst example_reset_album)"
    by (simp add: example_reset_album_def)
  have h3: "map_of example_reset_album ''data.json'' = Some (File ''{}'')"
    by (simp add: example_reset_album_def)
  have h4: "map_of example_reset_album ''full''
              = Some (Dir [(''.DS_Store'', File ''x''), (''rush_1.jpg'', File ''abc'')])"
    by (simp add: example_reset_album_def)
  have h5: "distinct (map fst [(''.DS_Store'', File ''x''), (''rush_1.jpg'', File ''abc'')])"
    by simp
  have h6: "''y'' = ''y'' \<or> ''y'' = ''Y''"
    by simp
  from reset_album_moves_full_entries [OF h1 h2 h3 h4 h5 h6]
  have "fst (reset_album ''y'' ''rush''
            (AList.update ''rush''
               (Dir (AList.update ''data.json'' (File ''[1, 2, 3]'') example_reset_album))
               example_reset_albums))
       = fst (reset_album ''y'' ''rush'' example_reset_albums)"
    by (elim exE conjE) (erule allE)
  with h1 h2 h3 h4 show ?thesis
    by (intro conjI)
qed

section \<open>Reset after publish\<close>

lemma distinct_restored: "distinct (map fst (restored_photos folder ps))"
proof -
  have "map fst (full_entries folder 1 ps) = map fst (restored_photos folder ps)"
    unfolding full_entries_restored by (simp add: split_def comp_def)
  then show ?thesis
    using distinct_full_entries [of folder 1 ps] by simp
qed

lemma in_full_entries:
  "(name, x) \<in> set (full_entries folder 1 ps)
     \<longleftrightarrow> (\<exists>c. x = File c \<and> (name, c) \<in> set (restored_photos folder ps))"
  unfolding full_entries_restored by auto

lemma reset_album_done:
  assumes "reset_album confirm album_name A = (ResetDone photo_count, A')"
    and "map_of A album_name = Some (Dir E)"
  shows "reset_files E = (True, snd (reset_files E))
       \<and> A' = AList.update album_name (Dir (snd (reset_files E))) A
       \<and> is_file (map_of E ''data.json'') \<and> is_dir (map_of E ''full'')"
proof -
  have meta: "is_file (map_of E ''data.json'')"
  proof (rule ccontr)
    assume "\<not> is_file (map_of E ''data.json'')"
    with assms show False by (simp add: reset_album_def Let_def)
  qed
  obtain F where full: "map_of E ''full'' = Some (Dir F)"
  proof (cases "map_of E ''full''")
    case None
    with assms meta show ?thesis by (simp add: reset_album_def Let_def)
  next
    case (Some x)
    with assms meta that show ?thesis by (cases x) (simp_all add: reset_album_def Let_def)
  qed
  have yes: "confirm = ''y'' \<or> confirm = ''Y''"
  proof (rule ccontr)
    assume "\<not> (confirm = ''y'' \<or> confirm = ''Y'')"
    with assms meta full show False by (simp add: reset_album_def Let_def)
  qed
  note unfolded = reset_album_confirmed [OF assms(2) meta full yes]
  from assms(1) have ok: "fst (reset_files E)"
    unfolding unfolded by (auto split: if_splits)
  with assms(1) have "A' = AList.update album_name (Dir (snd (reset_files E))) A"
    unfolding unfolded by simp
  with ok meta full show ?thesis
    by (simp add: prod_eq_iff)
qed

text \<open>
  Claim C2: when a raw album of N source files is published and then reset (the album
  being found under its folder name, that is without a rename conflict), the album root
  holds exactly N photo files again: the bytes of the N original files, each under its
  generated name \<^verbatim>\<open>baseName.originalExtension\<close>; and \<^verbatim>\<open>low/\<close>, \<^verbatim>\<open>full/\<close> and
  \<^verbatim>\<open>data.json\<close> are gone.
\<close>

theorem reset_after_publish:
  assumes "map_of A album_dir_name = Some (Dir E)" and "raw_album E"
    and "process_album t album_name photographer_name timestamp random album_dir_name A
           = (Completed, A')"
    and "map_of A (to_snake_case album_name) = None \<or> to_snake_case album_name = album_dir_name"
    and "reset_album confirm (to_snake_case album_name) A' = (ResetDone photo_count, A'')"
  shows "\<exists>E''. map_of A'' (to_snake_case album_name) = Some (Dir E'')
       \<and> mset (photo_entries E'')
           = mset (restored_photos (to_snake_case album_name) (photo_entries E))
       \<and> length (photo_entries E'') = length (photo_entries E)
       \<and> mset (map snd (photo_entries E'')) = mset (map snd (photo_entries E))
       \<and> map_of E'' ''low'' = None \<and> map_of E'' ''full'' = None
       \<and> map_of E'' ''data.json'' = None"
proof -
  define folder where "folder = to_snake_case album_name"
  define ps where "ps = photo_entries E"
  define F where "F = full_entries folder 1 ps"
  from process_album_completed [OF assms(1,3)] obtain E'
    where tr: "transform_album t album_name photographer_name timestamp random
                 (ALBUMS_DIR @ ''/'' @ album_dir_name @ ''/'') E = (Completed, E')"
      and loc: "album_after album_dir_name folder A A' = Some (Dir E')"
    unfolding folder_def by blast
  note fin = transform_album_completed [OF assms(2) tr]
  note low = fin [THEN conjunct2, THEN conjunct1]
    and full = fin [THEN conjunct2, THEN conjunct2, THEN conjunct1]
    and meta = fin [THEN conjunct2, THEN conjunct2, THEN conjunct2, THEN conjunct1]
    and dist = fin [THEN conjunct2, THEN conjunct2, THEN conjunct2, THEN conjunct2,
        THEN conjunct2, THEN conjunct1]
    and other = fin [THEN conjunct2, THEN conjunct2, THEN conjunct2, THEN conjunct2,
        THEN conjunct2, THEN conjunct2]
  from assms(2) have dE: "distinct (map fst E)"
    by (simp add: raw_album_def)
  have left: "photo_entries E' = []"
    using dE dist other by (rule no_photos_left)
  have full': "map_of E' ''full'' = Some (Dir F)"
    using full by (simp add: F_def folder_def ps_def)
  have meta': "is_file (map_of E' ''data.json'')"
    using meta by simp
  have at: "map_of A' folder = Some (Dir E')"
  proof (cases "album_dir_name = folder")
    case True
    with loc show ?thesis by (simp add: album_after_def)
  next
    case False
    with assms(4) have "map_of A folder = None" by (auto simp: folder_def)
    with False loc show ?thesis by (simp add: album_after_def)
  qed
  define E'' where "E'' = snd (reset_files E')"
  from reset_album_done [OF assms(5) [folded folder_def] at]
  have rf: "reset_files E' = (True, E'')" and A'': "A'' = AList.update folder (Dir E'') A'"
    by (simp_all add: E''_def)
  note reset = reset_files_done [OF rf full' dist meta']
  note r_distinct = reset [THEN conjunct1]
    and r_lookup = reset [THEN conjunct2, THEN conjunct1]
  have photos: "\<forall>(n, c) \<in> set ps. is_photo_name n"
    by (auto simp: ps_def set_photo_entries)
  have dF: "distinct (map fst F)"
    unfolding F_def by (rule distinct_full_entries)
  have inF: "(n, x) \<in> set F \<longleftrightarrow> (\<exists>c. x = File c \<and> (n, c) \<in> set (restored_photos folder ps))" for n x
    unfolding F_def by (rule in_full_entries)
  have namesF: "is_photo_name n \<and> \<not> hidden n" if "(n, c) \<in> set (restored_photos folder ps)" for n c
    using that photos unfolding folder_def by (rule restored_names)
  have glob: "n \<in> set (glob_star F) \<longleftrightarrow> n \<in> fst ` set F" for n
  proof
    assume "n \<in> set (glob_star F)"
    then show "n \<in> fst ` set F" by (simp add: set_glob_star)
  next
    assume "n \<in> fst ` set F"
    then obtain x where "(n, x) \<in> set F" by auto
    then obtain c where "(n, c) \<in> set (restored_photos folder ps)"
      using inF by blast
    then have "\<not> hidden n" using namesF by blast
    with \<open>n \<in> fst ` set F\<close> show "n \<in> set (glob_star F)" by (simp add: set_glob_star)
  qed
  have lookup: "map_of E'' n = (if n \<in> fst ` set F then map_of F n else map_of E' n)"
    if "is_photo_name n" for n
  proof -
    from that have "n \<noteq> ''low''" "n \<noteq> ''full''" "n \<noteq> ''data.json''"
      using not_photo_names by auto
    with r_lookup glob show ?thesis by simp
  qed
  have set_eq: "set (photo_entries E'') = set (restored_photos folder ps)"
  proof (rule set_eqI, clarify)
    fix n c
    show "(n, c) \<in> set (photo_entries E'') \<longleftrightarrow> (n, c) \<in> set (restored_photos folder ps)"
    proof
      assume "(n, c) \<in> set (photo_entries E'')"
      then have mem: "(n, File c) \<in> set E''" and ph: "is_photo_name n"
        by (simp_all add: set_photo_entries)
      from mem r_distinct have look: "map_of E'' n = Some (File c)"
        by simp
      show "(n, c) \<in> set (restored_photos folder ps)"
      proof (cases "n \<in> fst ` set F")
        case True
        with look lookup [OF ph] have "map_of F n = Some (File c)" by simp
        then have "(n, File c) \<in> set F" by (rule map_of_SomeD)
        then show ?thesis using inF by blast
      next
        case False
        with look lookup [OF ph] have "map_of E' n = Some (File c)" by simp
        then have "(n, File c) \<in> set E'" by (rule map_of_SomeD)
        with ph have "(n, c) \<in> set (photo_entries E')" by (simp add: set_photo_entries)
        with left show ?thesis by simp
      qed
    next
      assume r: "(n, c) \<in> set (restored_photos folder ps)"
      then have ph: "is_photo_name n" using namesF by blast
      from r have inset: "(n, File c) \<in> set F" using inF by blast
      with dF have "map_of F n = Some (File c)" by simp
      moreover from inset have "n \<in> fst ` set F" by force
      ultimately have "map_of E'' n = Some (File c)"
        using lookup [OF ph] by simp
      then have "(n, File c) \<in> set E''" by (rule map_of_SomeD)
      with ph show "(n, c) \<in> set (photo_entries E'')" by (simp add: set_photo_entries)
    qed
  qed
  have d1: "distinct (photo_entries E'')"
    using distinct_photo_entries [OF r_distinct] by (rule distinct_map [THEN iffD1, THEN conjunct1])
  have d2: "distinct (restored_photos folder ps)"
    using distinct_restored [of folder ps] by (rule distinct_map [THEN iffD1, THEN conjunct1])
  have ms: "mset (photo_entries E'') = mset (restored_photos folder ps)"
    using d1 d2 set_eq by (simp add: set_eq_iff_mset_eq_distinct)
  then have "mset (map snd (photo_entries E'')) = mset (map snd (restored_photos folder ps))"
    by (metis mset_map)
  then have contents: "mset (map snd (photo_entries E'')) = mset (map snd ps)"
    by (simp only: map_snd_restored)
  from ms have "size (mset (photo_entries E'')) = size (mset (restored_photos folder ps))"
    by simp
  then have len: "length (photo_entries E'') = length ps"
    by (simp add: restored_photos_def)
  have gone: "map_of E'' ''low'' = None" "map_of E'' ''full'' = None"
    "map_of E'' ''data.json'' = None"
  proof -
    have "''low'' \<notin> set (glob_star F)"
    proof
      assume "''low'' \<in> set (glob_star F)"
      then obtain x where "(''low'', x) \<in> set F" by (auto simp: set_glob_star)
      then obtain c where "(''low'', c) \<in> set (restored_photos folder ps)"
        using inF by blast
      then show False using namesF not_photo_names by blast
    qed
    moreover have "is_dir (map_of E' ''low'')"
      using low by simp
    ultimately show "map_of E'' ''low'' = None"
      using r_lookup by simp
    show "map_of E'' ''full'' = None" "map_of E'' ''data.json'' = None"
      using r_lookup by simp_all
  qed
  have "map_of A'' folder = Some (Dir E'')"
    by (simp add: A'' AList.update_conv')
  with ms len contents gone show ?thesis
    unfolding folder_def ps_def by blast
qed

theorem reset_after_publish_witness:
  "map_of example_albums ''Rush Week'' = Some (Dir example_album)
   \<and> raw_album example_album
   \<and> fst example_published = Completed
   \<and> map_of example_albums ''rush_week'' = None
   \<and> reset_album ''y'' ''rush_week'' (snd example_published)
       = (ResetDone 2,
          [(''rush_week'', Dir [(''notes.txt'', File ''plan''), (''rush_week_1.jpg'', File ''bbb''),
                                (''rush_week_2.png'', File ''aaa'')])])
   \<and> (\<exists>E''. map_of [(''rush_week'',
                        Dir [(''notes.txt'', File ''plan''), (''rush_week_1.jpg'', File ''bbb''),
                             (''rush_week_2.png'', File ''aaa'')])] ''rush_week''
               = Some (Dir E'')
          \<and> mset (map snd (photo_entries E'')) = mset (map snd (photo_entries example_album)))"
proof -
  have h1: "map_of example_albums ''Rush Week'' = Some (Dir example_album)"
    by (simp add: example_albums_def)
  have h2: "raw_album example_album"
    by (simp add: raw_album_def example_album_def)
  have h3: "fst example_published = Completed"
    by code_simp
  then have h3': "process_album example_tools ''Rush Week'' ''Ann'' ''2024-03-01T10:00:00Z'' 7
                    ''Rush Week'' example_albums = (Completed, snd example_published)"
    by (simp add: example_published_def prod_eq_iff)
  have snake: "to_snake_case ''Rush Week'' = ''rush_week''"
    by code_simp
  have free: "map_of example_albums ''rush_week'' = None"
    by (simp add: example_albums_def)
  then have h4: "map_of example_albums (to_snake_case ''Rush Week'') = None
                   \<or> to_snake_case ''Rush Week'' = ''Rush Week''"
    by (simp add: snake)
  have h5: "reset_album ''y'' ''rush_week'' (snd example_published)
       = (ResetDone 2,
          [(''rush_week'', Dir [(''notes.txt'', File ''plan''), (''rush_week_1.jpg'', File ''bbb''),
                                (''rush_week_2.png'', File ''aaa'')])])"
    by code_simp
  from reset_after_publish [OF h1 h2 h3' h4 h5 [folded snake]]
  have "\<exists>E''. map_of [(''rush_week'',
                        Dir [(''notes.txt'', File ''plan''), (''rush_week_1.jpg'', File ''bbb''),
                             (''rush_week_2.png'', File ''aaa'')])] ''rush_week''
               = Some (Dir E'')
          \<and> mset (map snd (photo_entries E'')) = mset (map snd (photo_entries example_album))"
    unfolding snake by (elim exE conjE) (intro exI conjI; assumption)
  with h1 h2 h3 free h5 show ?thesis
    by (intro conjI)
qed

end
